theory Spec2Isabelle
  imports Main "HOL-Library.Word"
begin

unbundle bit_operations_syntax

section \<open>The package manager of zpack (zpPackage.cpp)\<close>

text \<open>
  A shallow embedding of \<^verbatim>\<open>zp::Package\<close>: the header, the entry table, the name
  table and the hash index are the fields of a record, every member function is a
  function from the state to a result and the new state. What the C++ leaves
  undefined (a modulo by an empty table's size, a vector read out of range, a failed
  assertion) is a value of \<open>fault\<close>; a loop of the source that need not end is a
  \<open>partial_function\<close> in the option monad, where \<open>None\<close> is "does not return".
  The bytes of the stored files are not part of the model: only where they lie.
\<close>

subsection \<open>Integers, constants and records\<close>

type_synonym u32 = "32 word"
type_synonym u64 = "64 word"

definition MIN_HASH_TABLE_SIZE :: nat where
  "MIN_HASH_TABLE_SIZE = 256"

definition MAX_HASH_TABLE_SIZE :: nat where
  "MAX_HASH_TABLE_SIZE = 0x80000"

definition HASH_SEED0 :: u32 where
  "HASH_SEED0 = 31"

definition HASH_SEED1 :: u32 where
  "HASH_SEED1 = 131"

definition HASH_SEED2 :: u32 where
  "HASH_SEED2 = 1313"

text \<open>
  Modelled from the spec: \<^verbatim>\<open>FILE_FLAG_DELETED\<close> and \<^verbatim>\<open>FLAG_REPLACE\<close> are declared in
  zpPackage.h and zpack.h, which are not among the sources. The spec describes the
  flag field as holding "currently one bit: deleted/tombstoned" and the add flags as
  \<^verbatim>\<open>flags{REPLACE}\<close>; each is modelled as the lowest bit.
\<close>

definition FILE_FLAG_DELETED :: u32 where
  "FILE_FLAG_DELETED = 1"

definition FLAG_REPLACE :: u32 where
  "FLAG_REPLACE = 1"

text \<open>
  Modelled from the spec: the field lists of \<^verbatim>\<open>FileEntry\<close> and \<^verbatim>\<open>PackageHeader\<close>
  (zpPackage.h is not among the sources). The fields are the ones zpPackage.cpp
  reads and writes; hashes, flags, sizes and counts are 32 bits wide (they are
  assigned from \<^verbatim>\<open>u32\<close> values), offsets are 64 bits wide (they are assigned from
  the \<^verbatim>\<open>u64\<close> locals \<^verbatim>\<open>lastEnd\<close> and \<^verbatim>\<open>nextPos\<close>).
\<close>

record FileEntry =
  hash0 :: u32
  hash1 :: u32
  hash2 :: u32
  byteOffset :: u64
  fileSize :: u32
  flag :: u32

record PackageHeader =
  sign :: u32
  version :: u32
  headerSize :: u32
  fileCount :: u32
  fileEntryOffset :: u64
  fileEntrySize :: u32
  filenameOffset :: u64
  filenameSize :: u32

text \<open>
  What zpPackage.h fixes and this file only uses: the signature, the current
  version and the two \<^verbatim>\<open>sizeof\<close> values. They are parameters of the model.
\<close>

record abi =
  PACKAGE_FILE_SIGN :: u32
  CURRENT_VERSION :: u32
  sizeof_PackageHeader :: nat
  sizeof_FileEntry :: nat

text \<open>
  The archive as the loaders see it: its size, the header stored at offset 0, the
  \<open>i\<close>-th entry record read from the entry table, and the \<open>i\<close>-th line that
  \<^verbatim>\<open>std::getline\<close> reads from the name blob.
\<close>

record archive =
  packageSize :: u64
  storedHeader :: PackageHeader
  storedEntry :: "nat \<Rightarrow> FileEntry"
  storedName :: "nat \<Rightarrow> string"

record Package =
  m_readonly :: bool
  m_dirty :: bool
  m_isOpen :: bool
  m_header :: PackageHeader
  m_fileEntries :: "FileEntry list"
  m_filenames :: "string list"
  m_hashTable :: "int list"

datatype fault = ModuloByZero | IndexOutOfRange | AssertionFailed

type_synonym 'a outcome = "(fault + 'a) option"

definition deleted :: "FileEntry \<Rightarrow> bool" where
  "deleted e \<longleftrightarrow> flag e AND FILE_FLAG_DELETED \<noteq> 0"

subsection \<open>Name hasher\<close>

text \<open>
  \<^verbatim>\<open>stringHash\<close>. The source adds \<^verbatim>\<open>tolower(*str)\<close> to a \<^verbatim>\<open>u32\<close>, where \<^verbatim>\<open>*str\<close> is a
  \<^verbatim>\<open>char\<close>, a signed type here. The byte 0xFF is \<open>- 1\<close>, that is \<^verbatim>\<open>EOF\<close>, which \<^verbatim>\<open>tolower\<close>
  returns as it is and the conversion to \<^verbatim>\<open>u32\<close> wraps to 0xFFFFFFFF. The bytes 0x80 to
  0xFE are negative too and outside the domain the C standard gives \<^verbatim>\<open>tolower\<close>; the
  model takes the answer of the table of the C locale, the code of the byte between 128
  and 254. \<open>charValue\<close> is the summand; the multiplication and the addition wrap at 32
  bits.
\<close>

definition tolower :: "char \<Rightarrow> char" where
  "tolower c =
     (if (65::nat) \<le> of_char c \<and> of_char c \<le> (90::nat) then char_of (of_char c + (32::nat)) else c)"

definition charValue :: "char \<Rightarrow> u32" where
  "charValue c = (if of_char c = (255::nat) then - 1 else of_nat (of_char (tolower c)))"

fun stringHash_loop :: "string \<Rightarrow> u32 \<Rightarrow> u32 \<Rightarrow> u32" where
  "stringHash_loop [] seed out = out"
| "stringHash_loop (c # str) seed out =
     stringHash_loop str seed (out * seed + charValue c)"

definition stringHash :: "string \<Rightarrow> u32 \<Rightarrow> u32" where
  "stringHash str seed = stringHash_loop str seed 0"

subsection \<open>Hash index\<close>

text \<open>
  The doubling loop of \<^verbatim>\<open>buildHashTable\<close>; \<open>Some None\<close> is its \<^verbatim>\<open>return false\<close>. The
  candidate never passes \<open>2 * MAX_HASH_TABLE_SIZE\<close>, so the 32-bit product does not wrap.
\<close>

partial_function (option) tableSize_loop :: "nat \<Rightarrow> nat \<Rightarrow> nat option option" where
  "tableSize_loop tableSize count =
     (if tableSize < count
      then (if tableSize \<ge> MAX_HASH_TABLE_SIZE then Some None
            else tableSize_loop (tableSize * 2) count)
      else Some (Some tableSize))"

text \<open>The inner probing loop of \<^verbatim>\<open>buildHashTable\<close>: the first free slot from \<open>index\<close> on.\<close>

partial_function (option) freeSlot :: "int list \<Rightarrow> nat \<Rightarrow> nat option" where
  "freeSlot table index =
     (if table ! index \<noteq> - 1
      then freeSlot table (if index + 1 \<ge> length table then 0 else index + 1)
      else Some index)"

function fillTable :: "FileEntry list \<Rightarrow> nat \<Rightarrow> nat \<Rightarrow> int list \<Rightarrow> (int list) outcome" where
  "fillTable es count i table =
     (if i < count
      then (if i \<ge> length es then Some (Inl IndexOutOfRange)
            else (case freeSlot table (unat (hash0 (es ! i)) mod length table) of
                    None \<Rightarrow> None
                  | Some index \<Rightarrow> fillTable es count (i + 1) (table[index := int i])))
      else Some (Inr table))"
  by pat_completeness auto
termination
  by (relation "measure (\<lambda>(es, count, i, table). count - i)") auto

declare fillTable.simps [simp del]

definition buildHashTable :: "Package \<Rightarrow> (bool \<times> Package) outcome" where
  "buildHashTable s =
     (case tableSize_loop (MIN_HASH_TABLE_SIZE div 2) (unat (fileCount (m_header s))) of
        None \<Rightarrow> None
      | Some None \<Rightarrow> Some (Inr (False, s))
      | Some (Some tableSize) \<Rightarrow>
          (case fillTable (m_fileEntries s) (unat (fileCount (m_header s))) 0
                  (replicate (tableSize * 2) (- 1)) of
             None \<Rightarrow> None
           | Some (Inl f) \<Rightarrow> Some (Inl f)
           | Some (Inr table) \<Rightarrow> Some (Inr (True, s\<lparr>m_hashTable := table\<rparr>))))"

definition hashMatch :: "FileEntry \<Rightarrow> u32 \<Rightarrow> u32 \<Rightarrow> u32 \<Rightarrow> bool" where
  "hashMatch entry h0 h1 h2 \<longleftrightarrow> hash0 entry = h0 \<and> hash1 entry = h1 \<and> hash2 entry = h2"

text \<open>
  The probing loop of \<^verbatim>\<open>getFileIndex\<close>, entered with \<open>fileIndex = m_hashTable[hashIndex]\<close>.
\<close>

partial_function (option) probe ::
  "FileEntry list \<Rightarrow> int list \<Rightarrow> u32 \<Rightarrow> u32 \<Rightarrow> u32 \<Rightarrow> nat \<Rightarrow> int \<Rightarrow> int outcome" where
  "probe es table h0 h1 h2 hashIndex fileIndex =
     (if fileIndex \<ge> 0
      then (if nat fileIndex \<ge> length es then Some (Inl IndexOutOfRange)
            else if hashMatch (es ! nat fileIndex) h0 h1 h2
            then (if deleted (es ! nat fileIndex) then Some (Inr (- 1))
                  else Some (Inr fileIndex))
            else probe es table h0 h1 h2
                   (if hashIndex + 1 \<ge> length table then 0 else hashIndex + 1)
                   (table ! (if hashIndex + 1 \<ge> length table then 0 else hashIndex + 1)))
      else Some (Inr (- 1)))"

definition getFileIndex :: "Package \<Rightarrow> string \<Rightarrow> int outcome" where
  "getFileIndex s filename =
     (let h0 = stringHash filename HASH_SEED0;
          h1 = stringHash filename HASH_SEED1;
          h2 = stringHash filename HASH_SEED2
      in if m_hashTable s = [] then Some (Inl ModuloByZero)
         else probe (m_fileEntries s) (m_hashTable s) h0 h1 h2
                (unat h0 mod length (m_hashTable s))
                (m_hashTable s ! (unat h0 mod length (m_hashTable s))))"

definition fixHashTable :: "int list \<Rightarrow> nat \<Rightarrow> int list" where
  "fixHashTable table index = map (\<lambda>v. if v \<ge> int index then v + 1 else v) table"

subsection \<open>Loading an archive\<close>

definition readHeader :: "abi \<Rightarrow> archive \<Rightarrow> Package \<Rightarrow> bool \<times> Package" where
  "readHeader A a s =
     (if unat (packageSize a) < sizeof_PackageHeader A then (False, s)
      else let h = storedHeader a; s' = s\<lparr>m_header := h\<rparr> in
        if sign h \<noteq> PACKAGE_FILE_SIGN A
           \<or> unat (headerSize h) < sizeof_PackageHeader A
           \<or> unat (fileEntrySize h) < sizeof_FileEntry A
           \<or> fileEntryOffset h < ucast (headerSize h)
           \<or> ucast (fileCount h * fileEntrySize h) + fileEntryOffset h > packageSize a
           \<or> filenameOffset h + ucast (filenameSize h) > packageSize a
        then (False, s')
        else if version h \<noteq> CURRENT_VERSION A then (True, s'\<lparr>m_readonly := True\<rparr>)
        else (True, s'))"

definition zeroEntry :: FileEntry where
  "zeroEntry = \<lparr>hash0 = 0, hash1 = 0, hash2 = 0, byteOffset = 0, fileSize = 0, flag = 0\<rparr>"

function readFileEntries_loop ::
  "archive \<Rightarrow> PackageHeader \<Rightarrow> nat \<Rightarrow> u64 \<Rightarrow> FileEntry list \<Rightarrow> bool \<times> FileEntry list" where
  "readFileEntries_loop a h i nextOffset es =
     (if i < unat (fileCount h)
      then (if nextOffset \<ge> fileEntryOffset h then (False, es)
            else if byteOffset (storedEntry a i) < nextOffset
            then (False, es[i := storedEntry a i])
            else readFileEntries_loop a h (i + 1)
                   (byteOffset (storedEntry a i) + ucast (fileSize (storedEntry a i)))
                   (es[i := storedEntry a i]))
      else (True, es))"
  by pat_completeness auto
termination
  by (relation "measure (\<lambda>(a, h, i, nextOffset, es). unat (fileCount h) - i)") auto

declare readFileEntries_loop.simps [simp del]

definition readFileEntries :: "archive \<Rightarrow> Package \<Rightarrow> bool \<times> Package" where
  "readFileEntries a s =
     (case readFileEntries_loop a (m_header s) 0 (ucast (headerSize (m_header s)))
             (replicate (unat (fileCount (m_header s))) zeroEntry) of
        (ok, es) \<Rightarrow> (ok, s\<lparr>m_fileEntries := es\<rparr>))"

definition readFilenames :: "archive \<Rightarrow> Package \<Rightarrow> bool \<times> Package" where
  "readFilenames a s =
     (if m_fileEntries s = [] \<or> m_readonly s then (True, s)
      else (True, s\<lparr>m_filenames := map (storedName a) [0..<length (m_fileEntries s)]\<rparr>))"

definition zeroHeader :: PackageHeader where
  "zeroHeader = \<lparr>sign = 0, version = 0, headerSize = 0, fileCount = 0, fileEntryOffset = 0,
     fileEntrySize = 0, filenameOffset = 0, filenameSize = 0\<rparr>"

text \<open>
  The constructor. \<open>file = None\<close> is a stream that could not be opened. The header
  member is indeterminate until \<^verbatim>\<open>readHeader\<close> has read it; the model starts it at zero.
  The result of \<^verbatim>\<open>buildHashTable\<close> is dropped, as in the source.
\<close>

definition newPackage :: "bool \<Rightarrow> bool \<Rightarrow> Package" where
  "newPackage readonly isOpen =
     \<lparr>m_readonly = readonly, m_dirty = False, m_isOpen = isOpen, m_header = zeroHeader,
      m_fileEntries = [], m_filenames = [], m_hashTable = []\<rparr>"

definition openPackage :: "abi \<Rightarrow> archive option \<Rightarrow> bool \<Rightarrow> Package outcome" where
  "openPackage A file readonly =
     (case file of
        None \<Rightarrow> Some (Inr (newPackage readonly False))
      | Some a \<Rightarrow>
          (case readHeader A a (newPackage readonly True) of
             (False, s1) \<Rightarrow> Some (Inr (s1\<lparr>m_isOpen := False\<rparr>))
           | (True, s1) \<Rightarrow>
               (case readFileEntries a s1 of
                  (False, s2) \<Rightarrow> Some (Inr (s2\<lparr>m_isOpen := False\<rparr>))
                | (True, s2) \<Rightarrow>
                    (case readFilenames a s2 of
                       (False, s3) \<Rightarrow> Some (Inr (s3\<lparr>m_isOpen := False\<rparr>))
                     | (True, s3) \<Rightarrow>
                         (case buildHashTable s3 of
                            None \<Rightarrow> None
                          | Some (Inl f) \<Rightarrow> Some (Inl f)
                          | Some (Inr (built, s4)) \<Rightarrow> Some (Inr s4))))))"

definition valid :: "Package \<Rightarrow> bool" where
  "valid s = m_isOpen s"

definition dirty :: "Package \<Rightarrow> bool" where
  "dirty s = m_dirty s"

definition getFileCount :: "Package \<Rightarrow> u32" where
  "getFileCount s = of_nat (length (m_fileEntries s))"

definition hasFile :: "Package \<Rightarrow> string \<Rightarrow> bool outcome" where
  "hasFile s filename =
     (if m_dirty s then Some (Inr False)
      else (case getFileIndex s filename of
              None \<Rightarrow> None
            | Some (Inl f) \<Rightarrow> Some (Inl f)
            | Some (Inr fileIndex) \<Rightarrow> Some (Inr (fileIndex \<ge> 0))))"

text \<open>\<^verbatim>\<open>openFile\<close>: the accessor is the window \<open>(offset, size)\<close> it is made with.\<close>

definition openFile :: "Package \<Rightarrow> string \<Rightarrow> ((u64 \<times> u32) option) outcome" where
  "openFile s filename =
     (if m_dirty s then Some (Inr None)
      else (case getFileIndex s filename of
              None \<Rightarrow> None
            | Some (Inl f) \<Rightarrow> Some (Inl f)
            | Some (Inr fileIndex) \<Rightarrow>
                if fileIndex < 0 then Some (Inr None)
                else Some (Inr (Some (byteOffset (m_fileEntries s ! nat fileIndex),
                                      fileSize (m_fileEntries s ! nat fileIndex))))))"

subsection \<open>Space allocator\<close>

text \<open>
  The scan of \<^verbatim>\<open>insertFile\<close> over the entries from \<open>fileIndex\<close> on: \<open>Some (i, lastEnd)\<close>
  when it splices at index \<open>i\<close>, \<open>None\<close> when it falls through to the append. The
  subtraction is the unsigned 64-bit one.
\<close>

fun insertFile_scan :: "FileEntry list \<Rightarrow> u32 \<Rightarrow> nat \<Rightarrow> u64 \<Rightarrow> (nat \<times> u64) option" where
  "insertFile_scan [] sz fileIndex lastEnd = None"
| "insertFile_scan (thisEntry # rest) sz fileIndex lastEnd =
     (if deleted thisEntry then insertFile_scan rest sz (fileIndex + 1) lastEnd
      else if byteOffset thisEntry - lastEnd \<ge> ucast sz then Some (fileIndex, lastEnd)
      else insertFile_scan rest sz (fileIndex + 1)
             (byteOffset thisEntry + ucast (fileSize thisEntry)))"

definition insertAt :: "nat \<Rightarrow> 'a \<Rightarrow> 'a list \<Rightarrow> 'a list" where
  "insertAt i x xs = take i xs @ x # drop i xs"

definition insertFile :: "abi \<Rightarrow> Package \<Rightarrow> FileEntry \<Rightarrow> string \<Rightarrow> (fault + FileEntry \<times> Package)" where
  "insertFile A s entry filename =
     (case insertFile_scan (m_fileEntries s) (fileSize entry) 0 (ucast (headerSize (m_header s))) of
        Some (fileIndex, lastEnd) \<Rightarrow>
          (let entry' = entry\<lparr>byteOffset := lastEnd\<rparr> in
           if fileIndex > length (m_filenames s) then Inl IndexOutOfRange
           else if length (m_filenames s) \<noteq> length (m_fileEntries s) then Inl AssertionFailed
           else Inr (entry',
                  s\<lparr>m_fileEntries := insertAt fileIndex entry' (m_fileEntries s),
                    m_filenames := insertAt fileIndex filename (m_filenames s),
                    m_hashTable := fixHashTable (m_hashTable s) fileIndex\<rparr>))
      | None \<Rightarrow>
          (let entry' = entry\<lparr>byteOffset :=
                 (if m_fileEntries s = [] then of_nat (sizeof_PackageHeader A)
                  else byteOffset (last (m_fileEntries s)) + ucast (fileSize (last (m_fileEntries s))))\<rparr>
           in if length (m_filenames s) \<noteq> length (m_fileEntries s) then Inl AssertionFailed
              else Inr (entry',
                     s\<lparr>m_fileEntries := m_fileEntries s @ [entry'],
                       m_filenames := m_filenames s @ [filename],
                       m_header := (m_header s)\<lparr>fileEntryOffset :=
                          byteOffset entry' + ucast (fileSize entry')\<rparr>\<rparr>)))"

subsection \<open>Mutating operations\<close>

definition recountNames :: "abi \<Rightarrow> PackageHeader \<Rightarrow> PackageHeader" where
  "recountNames A h =
     h\<lparr>filenameOffset := fileEntryOffset h + of_nat (sizeof_FileEntry A) * ucast (fileCount h)\<rparr>"

definition removeFile :: "abi \<Rightarrow> Package \<Rightarrow> string \<Rightarrow> (bool \<times> Package) outcome" where
  "removeFile A s filename =
     (if m_readonly s then Some (Inr (False, s))
      else (case getFileIndex s filename of
              None \<Rightarrow> None
            | Some (Inl f) \<Rightarrow> Some (Inl f)
            | Some (Inr fileIndex) \<Rightarrow>
                if fileIndex < 0 then Some (Inr (False, s))
                else Some (Inr (True,
                  s\<lparr>m_fileEntries := (m_fileEntries s)[nat fileIndex :=
                        (m_fileEntries s ! nat fileIndex)
                          \<lparr>flag := flag (m_fileEntries s ! nat fileIndex) OR FILE_FLAG_DELETED\<rparr>],
                    m_header := recountNames A ((m_header s)\<lparr>fileCount := fileCount (m_header s) - 1\<rparr>),
                    m_dirty := True\<rparr>))))"

text \<open>
  \<^verbatim>\<open>addFile\<close>. \<open>externalFile\<close> is \<open>None\<close> when the external file cannot be opened and
  \<open>Some n\<close> for a readable file of \<open>n\<close> bytes.
\<close>

definition addFile_insert :: "abi \<Rightarrow> Package \<Rightarrow> nat \<Rightarrow> string \<Rightarrow> (bool \<times> Package) outcome" where
  "addFile_insert A s n filename =
     (let entry = \<lparr>hash0 = stringHash filename HASH_SEED0,
                   hash1 = stringHash filename HASH_SEED1,
                   hash2 = stringHash filename HASH_SEED2,
                   byteOffset = 0, fileSize = of_nat n, flag = 0\<rparr>
      in case insertFile A s entry filename of
           Inl f \<Rightarrow> Some (Inl f)
         | Inr (entry', s') \<Rightarrow>
             Some (Inr (True,
               s'\<lparr>m_header := recountNames A ((m_header s')\<lparr>fileCount := fileCount (m_header s') + 1\<rparr>),
                  m_dirty := True\<rparr>)))"

definition addFile :: "abi \<Rightarrow> Package \<Rightarrow> nat option \<Rightarrow> string \<Rightarrow> u32 \<Rightarrow> (bool \<times> Package) outcome" where
  "addFile A s externalFile filename flg =
     (if m_readonly s then Some (Inr (False, s))
      else (case externalFile of
              None \<Rightarrow> Some (Inr (False, s))
            | Some n \<Rightarrow>
                (case getFileIndex s filename of
                   None \<Rightarrow> None
                 | Some (Inl f) \<Rightarrow> Some (Inl f)
                 | Some (Inr fileIndex) \<Rightarrow>
                     if fileIndex \<ge> 0
                     then (if flg AND FLAG_REPLACE = 0 then Some (Inr (False, s))
                           else (case removeFile A s filename of
                                   None \<Rightarrow> None
                                 | Some (Inl f) \<Rightarrow> Some (Inl f)
                                 | Some (Inr (removed, s')) \<Rightarrow> addFile_insert A s' n filename))
                     else addFile_insert A s n filename)))"

text \<open>
  The compaction loop of \<^verbatim>\<open>flush\<close>: the two iterators walk the entry table and the
  name table together; it runs after the assertion that both have one length.
\<close>

fun flush_loop :: "FileEntry list \<Rightarrow> string list \<Rightarrow> FileEntry list \<times> string list" where
  "flush_loop (entry # es) (name # ns) =
     (if deleted entry then flush_loop es ns
      else (case flush_loop es ns of (es', ns') \<Rightarrow> (entry # es', name # ns')))"
| "flush_loop es ns = (es, ns)"

definition namesSize :: "string list \<Rightarrow> u32" where
  "namesSize ns = foldl (\<lambda>acc filename. acc + (of_nat (length filename) + 1)) 0 ns"

definition flush :: "Package \<Rightarrow> Package outcome" where
  "flush s =
     (if m_readonly s \<or> \<not> m_dirty s then Some (Inr s)
      else if length (m_filenames s) \<noteq> length (m_fileEntries s) then Some (Inl AssertionFailed)
      else (case flush_loop (m_fileEntries s) (m_filenames s) of
              (es, ns) \<Rightarrow>
                if length ns \<noteq> length es then Some (Inl AssertionFailed)
                else (case buildHashTable
                             (s\<lparr>m_fileEntries := es, m_filenames := ns,
                                m_header := (m_header s)\<lparr>filenameSize := namesSize ns\<rparr>\<rparr>) of
                        None \<Rightarrow> None
                      | Some (Inl f) \<Rightarrow> Some (Inl f)
                      | Some (Inr (built, s')) \<Rightarrow> Some (Inr (s'\<lparr>m_dirty := False\<rparr>)))))"

text \<open>
  The relocation loop of \<^verbatim>\<open>defrag\<close>. Taking \<^verbatim>\<open>&tempBuffer[0]\<close> of a buffer resized to
  zero bytes reads an empty vector out of range.
\<close>

fun defrag_loop :: "FileEntry list \<Rightarrow> u64 \<Rightarrow> (fault + FileEntry list \<times> u64)" where
  "defrag_loop [] nextPos = Inr ([], nextPos)"
| "defrag_loop (entry # es) nextPos =
     (if byteOffset entry \<noteq> nextPos \<and> fileSize entry = 0 then Inl IndexOutOfRange
      else (case defrag_loop es (nextPos + ucast (fileSize entry)) of
              Inl f \<Rightarrow> Inl f
            | Inr (es', endPos) \<Rightarrow> Inr (entry\<lparr>byteOffset := nextPos\<rparr> # es', endPos)))"

text \<open>
  \<^verbatim>\<open>defrag\<close>. \<open>fopenOk\<close> and \<open>reopenOk\<close> say whether \<^verbatim>\<open>fopen\<close> and the reopening of the
  stream succeed.
\<close>

definition defrag :: "abi \<Rightarrow> Package \<Rightarrow> bool \<Rightarrow> bool \<Rightarrow> (bool \<times> Package) outcome" where
  "defrag A s fopenOk reopenOk =
     (if m_readonly s \<or> m_dirty s then Some (Inr (False, s))
      else (case defrag_loop (m_fileEntries s) (ucast (headerSize (m_header s))) of
              Inl f \<Rightarrow> Some (Inl f)
            | Inr (es, nextPos) \<Rightarrow>
                (case flush (s\<lparr>m_fileEntries := es,
                               m_header := recountNames A ((m_header s)\<lparr>fileEntryOffset := nextPos\<rparr>),
                               m_dirty := True\<rparr>) of
                   None \<Rightarrow> None
                 | Some (Inl f) \<Rightarrow> Some (Inl f)
                 | Some (Inr s') \<Rightarrow>
                     if \<not> fopenOk then Some (Inr (False, s'\<lparr>m_isOpen := False\<rparr>))
                     else if \<not> reopenOk then Some (Inl AssertionFailed)
                     else Some (Inr (True, s'\<lparr>m_isOpen := True\<rparr>)))))"

section \<open>Auxiliary notions\<close>

subsection \<open>Names and entries\<close>

text \<open>
  An entry carries the name \<open>filename\<close> when its three hashes are the hashes of the name:
  this is the test of \<^verbatim>\<open>getFileIndex\<close>, and the only link between an entry and a name.
  \<open>entryOf\<close> builds the entry of a name at an offset, with a size and a flag word.
\<close>

definition nameMatch :: "FileEntry \<Rightarrow> string \<Rightarrow> bool" where
  "nameMatch entry filename =
     hashMatch entry (stringHash filename HASH_SEED0) (stringHash filename HASH_SEED1)
       (stringHash filename HASH_SEED2)"

definition entryOf :: "string \<Rightarrow> nat \<Rightarrow> nat \<Rightarrow> u32 \<Rightarrow> FileEntry" where
  "entryOf filename offset n flg =
     \<lparr>hash0 = stringHash filename HASH_SEED0, hash1 = stringHash filename HASH_SEED1,
      hash2 = stringHash filename HASH_SEED2, byteOffset = of_nat offset, fileSize = of_nat n,
      flag = flg\<rparr>"

text \<open>
  The name table is aligned with the entry table when both have one length and every
  entry carries the name at its index.
\<close>

definition aligned :: "Package \<Rightarrow> bool" where
  "aligned s \<longleftrightarrow> list_all2 nameMatch (m_fileEntries s) (m_filenames s)"

text \<open>
  \<open>tombstone\<close> sets the deleted flag; \<open>removedAt\<close> is the package \<^verbatim>\<open>removeFile\<close> leaves when
  the lookup answers \<open>i\<close>.
\<close>

definition tombstone :: "FileEntry \<Rightarrow> FileEntry" where
  "tombstone e = e\<lparr>flag := flag e OR FILE_FLAG_DELETED\<rparr>"


subsection \<open>The hash index\<close>

text \<open>
  What the doubling loop of \<^verbatim>\<open>buildHashTable\<close>, started at \<open>2 ^ k\<close>, may return for \<open>n\<close>
  entries; and the number of occupied slots of a table.
\<close>

definition sizeSpec :: "nat \<Rightarrow> nat \<Rightarrow> nat option \<Rightarrow> bool" where
  "sizeSpec k n r =
     (case r of None \<Rightarrow> n > MAX_HASH_TABLE_SIZE
      | Some t \<Rightarrow> (\<exists>j. t = 2 ^ j \<and> k \<le> j \<and> j \<le> 19) \<and> n \<le> t \<and> (t = 2 ^ k \<or> t < 2 * n))"

definition used :: "int list \<Rightarrow> nat" where
  "used table = length (filter (\<lambda>v. v \<noteq> - 1) table)"

text \<open>
  The slot that the lookup of \<open>filename\<close> reads after \<open>j\<close> steps of linear probing.
\<close>

definition probeSlot :: "Package \<Rightarrow> string \<Rightarrow> nat \<Rightarrow> int" where
  "probeSlot s filename j =
     m_hashTable s ! ((unat (stringHash filename HASH_SEED0) + j) mod length (m_hashTable s))"

text \<open>
  The invariant of the filling loop of \<^verbatim>\<open>buildHashTable\<close>. Entry \<open>j\<close> is reachable when its
  index stands in a slot of its probe chain with no free slot before it; the table
  indexes the first \<open>i\<close> entries when each of them is reachable and every occupied slot
  holds an index below \<open>i\<close>.
\<close>

definition homeSlot :: "int list \<Rightarrow> FileEntry \<Rightarrow> nat" where
  "homeSlot table e = unat (hash0 e) mod length table"

definition reachable :: "int list \<Rightarrow> FileEntry list \<Rightarrow> nat \<Rightarrow> bool" where
  "reachable table es j \<longleftrightarrow>
     (\<exists>d. table ! ((homeSlot table (es ! j) + d) mod length table) = int j
          \<and> (\<forall>d'<d. table ! ((homeSlot table (es ! j) + d') mod length table) \<noteq> - 1))"

definition indexed :: "FileEntry list \<Rightarrow> nat \<Rightarrow> int list \<Rightarrow> bool" where
  "indexed es i table \<longleftrightarrow>
     (\<forall>j<i. reachable table es j) \<and> (\<forall>v \<in> set table. v = - 1 \<or> (0 \<le> v \<and> v < int i))"

subsection \<open>Placement\<close>

text \<open>
  The variable \<^verbatim>\<open>lastEnd\<close> of the scan of \<^verbatim>\<open>insertFile\<close>: a tombstoned entry leaves it as it
  is, a live entry moves it to the end of the entry. The entry at \<open>i\<close> fits a new file of
  \<open>sz\<close> bytes when it is live and the unsigned 64-bit difference between its offset and
  \<^verbatim>\<open>lastEnd\<close> is at least \<open>sz\<close>.
\<close>

definition advance :: "u64 \<Rightarrow> FileEntry \<Rightarrow> u64" where
  "advance lastEnd entry =
     (if deleted entry then lastEnd else byteOffset entry + ucast (fileSize entry))"

definition lastEndOf :: "u64 \<Rightarrow> FileEntry list \<Rightarrow> u64" where
  "lastEndOf start es = foldl advance start es"

definition gapFits :: "u64 \<Rightarrow> FileEntry list \<Rightarrow> u32 \<Rightarrow> nat \<Rightarrow> bool" where
  "gapFits start es sz i \<longleftrightarrow>
     \<not> deleted (es ! i) \<and> ucast sz \<le> byteOffset (es ! i) - lastEndOf start (take i es)"

subsection \<open>Layout of the data area\<close>

text \<open>
  \<open>fin e\<close> is the end of the bytes of \<open>e\<close>, without wrap-around, and \<open>byteRange e\<close> the bytes
  themselves.
\<close>

definition fin :: "FileEntry \<Rightarrow> nat" where
  "fin e = unat (byteOffset e) + unat (fileSize e)"

definition byteRange :: "FileEntry \<Rightarrow> nat set" where
  "byteRange e = {unat (byteOffset e) ..< fin e}"

text \<open>
  A table is packed above \<open>lastEnd\<close> when its live entries follow each other without
  overlap, in table order and below \<open>2 ^ 64\<close>; it is chained when all its entries do, the
  test \<^verbatim>\<open>readFileEntries\<close> applies to an archive. \<open>liveEnd\<close> is the end of the last live entry.
\<close>

fun packed :: "nat \<Rightarrow> FileEntry list \<Rightarrow> bool" where
  "packed lastEnd [] = True"
| "packed lastEnd (e # es) =
     (if deleted e then packed lastEnd es
      else lastEnd \<le> unat (byteOffset e) \<and> fin e < 2 ^ 64 \<and> packed (fin e) es)"

fun chained :: "nat \<Rightarrow> FileEntry list \<Rightarrow> bool" where
  "chained lastEnd [] = True"
| "chained lastEnd (e # es) =
     (lastEnd \<le> unat (byteOffset e) \<and> fin e < 2 ^ 64 \<and> chained (fin e) es)"

definition liveEnd :: "nat \<Rightarrow> FileEntry list \<Rightarrow> nat" where
  "liveEnd start es = foldl (\<lambda>lastEnd e. if deleted e then lastEnd else fin e) start es"

text \<open>
  The layout invariant of a package whose header has the size \<^verbatim>\<open>sizeof(PackageHeader)\<close>:
  the table is packed behind the header, its last entry ends at or above every live
  entry and at or below the bound \<open>B\<close>, and the table of a package that is not dirty is
  chained.
\<close>

definition layoutOk :: "abi \<Rightarrow> nat \<Rightarrow> Package \<Rightarrow> bool" where
  "layoutOk A B s \<longleftrightarrow>
     unat (headerSize (m_header s)) = sizeof_PackageHeader A
     \<and> unat (headerSize (m_header s)) \<le> B
     \<and> packed (unat (headerSize (m_header s))) (m_fileEntries s)
     \<and> (m_fileEntries s = []
        \<or> (liveEnd (unat (headerSize (m_header s))) (m_fileEntries s) \<le> fin (last (m_fileEntries s))
           \<and> fin (last (m_fileEntries s)) \<le> B))
     \<and> (m_dirty s \<or> chained (unat (headerSize (m_header s))) (m_fileEntries s))"

subsection \<open>Sequences of calls\<close>

text \<open>
  The mutating calls of the interface, and the package that a sequence of them leaves
  when each one returns. \<^verbatim>\<open>addFile\<close> is given the size of the external file (\<open>None\<close> when
  it cannot be opened), \<^verbatim>\<open>defrag\<close> whether its two \<^verbatim>\<open>fopen\<close> calls succeed.
\<close>

datatype operation =
    AddFile "nat option" string u32
  | RemoveFile string
  | Flush
  | Defrag bool bool

definition stateOf :: "(bool \<times> Package) outcome \<Rightarrow> Package outcome" where
  "stateOf r = map_option (map_sum (\<lambda>f. f) snd) r"

fun perform :: "abi \<Rightarrow> Package \<Rightarrow> operation \<Rightarrow> Package outcome" where
  "perform A s (AddFile externalFile filename flg) = stateOf (addFile A s externalFile filename flg)"
| "perform A s (RemoveFile filename) = stateOf (removeFile A s filename)"
| "perform A s Flush = flush s"
| "perform A s (Defrag fopenOk reopenOk) = stateOf (defrag A s fopenOk reopenOk)"

fun run :: "abi \<Rightarrow> Package \<Rightarrow> operation list \<Rightarrow> Package outcome" where
  "run A s [] = Some (Inr s)"
| "run A s (operation # rest) =
     (case perform A s operation of
        None \<Rightarrow> None
      | Some (Inl f) \<Rightarrow> Some (Inl f)
      | Some (Inr s') \<Rightarrow> run A s' rest)"

text \<open>
  The package on which \<^verbatim>\<open>flush\<close> calls \<^verbatim>\<open>buildHashTable\<close>: the tables compacted, the size
  of the names recounted.
\<close>

definition compacted :: "Package \<Rightarrow> Package" where
  "compacted s =
     s\<lparr>m_fileEntries := fst (flush_loop (m_fileEntries s) (m_filenames s)),
       m_filenames := snd (flush_loop (m_fileEntries s) (m_filenames s)),
       m_header := (m_header s)\<lparr>filenameSize :=
          namesSize (snd (flush_loop (m_fileEntries s) (m_filenames s)))\<rparr>\<rparr>"

subsection \<open>Example archives and packages\<close>

text \<open>
  The examples take \<^verbatim>\<open>sizeof(PackageHeader)\<close> = 40 and \<^verbatim>\<open>sizeof(FileEntry)\<close> = 32; the
  theorems hold for every value of the two. \<open>headerOf hs count entryOffset\<close> is a header
  with the signature and the version of the examples, whose names follow the entry table.
\<close>

definition exampleAbi :: abi where
  "exampleAbi = \<lparr>PACKAGE_FILE_SIGN = 0x4B41505A, CURRENT_VERSION = 1,
     sizeof_PackageHeader = 40, sizeof_FileEntry = 32\<rparr>"

definition headerOf :: "nat \<Rightarrow> nat \<Rightarrow> nat \<Rightarrow> PackageHeader" where
  "headerOf hs count entryOffset =
     \<lparr>sign = 0x4B41505A, version = 1, headerSize = of_nat hs, fileCount = of_nat count,
      fileEntryOffset = of_nat entryOffset, fileEntrySize = 32,
      filenameOffset = of_nat (entryOffset + 32 * count), filenameSize = 0\<rparr>"

text \<open>
  A writable, clean package holding the given entries, its hash index not yet built;
  the package of one entry; and a package whose index leads the lookup of \<open>''a''\<close> over
  \<open>''b''\<close> and a tombstoned \<open>''a''\<close> to a live \<open>''a''\<close>.
\<close>

definition packageOf :: "FileEntry list \<Rightarrow> Package" where
  "packageOf es =
     \<lparr>m_readonly = False, m_dirty = False, m_isOpen = True,
      m_header = zeroHeader\<lparr>fileCount := of_nat (length es)\<rparr>,
      m_fileEntries = es, m_filenames = replicate (length es) [], m_hashTable = []\<rparr>"

definition packageOne :: Package where
  "packageOne = packageOf [zeroEntry]"

definition packageShadowed :: Package where
  "packageShadowed =
     (packageOf [entryOf ''b'' 40 5 0, entryOf ''a'' 45 5 FILE_FLAG_DELETED, entryOf ''a'' 50 5 0])
       \<lparr>m_hashTable := [- 1, 0, 1, 2]\<rparr>"

text \<open>
  Packages for the placement of a new entry: a tombstoned entry between two live ones,
  and a tombstoned entry at the end of the table.
\<close>

definition examplePackage :: "FileEntry list \<Rightarrow> string list \<Rightarrow> Package" where
  "examplePackage es ns =
     \<lparr>m_readonly = False, m_dirty = False, m_isOpen = True,
      m_header = headerOf 40 (length es) 200,
      m_fileEntries = es, m_filenames = ns, m_hashTable = replicate 256 (- 1)\<rparr>"

definition packageGap :: Package where
  "packageGap = examplePackage
     [entryOf ''a'' 40 10 0, entryOf ''t'' 50 10 FILE_FLAG_DELETED, entryOf ''b'' 70 10 0]
     [''a'', ''t'', ''b'']"

definition packageTail :: Package where
  "packageTail = examplePackage
     [entryOf ''a'' 40 10 0, entryOf ''t'' 50 10 FILE_FLAG_DELETED] [''a'', ''t'']"

text \<open>
  An archive with a wrong signature; an archive of 0x80001 empty entries, and the
  package the loaders build from it.
\<close>

definition badArchive :: archive where
  "badArchive = \<lparr>packageSize = 40, storedHeader = (headerOf 40 0 40)\<lparr>sign := 0\<rparr>,
     storedEntry = (\<lambda>i. zeroEntry), storedName = (\<lambda>i. [])\<rparr>"

definition bigArchive :: archive where
  "bigArchive = \<lparr>packageSize = 0x2000000, storedHeader = headerOf 40 0x80001 41,
     storedEntry = (\<lambda>i. entryOf [] 40 0 0), storedName = (\<lambda>i. [])\<rparr>"

definition bigLoaded :: Package where
  "bigLoaded = (newPackage True True)
     \<lparr>m_header := storedHeader bigArchive, m_fileEntries := replicate 0x80001 (entryOf [] 40 0 0)\<rparr>"

text \<open>
  An archive of three entries with a gap of 30 bytes behind the first; the package
  opened from it; that package after the removal of \<open>''c''\<close> and the addition of 20 bytes as
  \<open>''n''\<close>; and the same after \<^verbatim>\<open>flush\<close>.
\<close>

definition gapArchive :: archive where
  "gapArchive =
     \<lparr>packageSize = 256, storedHeader = headerOf 40 3 100,
      storedEntry = (\<lambda>i. if i = 0 then entryOf ''a'' 40 10 0
                         else if i = 1 then entryOf ''c'' 80 10 0 else entryOf ''d'' 90 10 0),
      storedName = (\<lambda>i. if i = 0 then ''a'' else if i = 1 then ''c'' else ''d'')\<rparr>"

definition gapOpened :: Package where
  "gapOpened =
     \<lparr>m_readonly = False, m_dirty = False, m_isOpen = True, m_header = headerOf 40 3 100,
      m_fileEntries = [entryOf ''a'' 40 10 0, entryOf ''c'' 80 10 0, entryOf ''d'' 90 10 0],
      m_filenames = [''a'', ''c'', ''d''],
      m_hashTable = (replicate 256 (- 1))[97 := 0, 99 := 1, 100 := 2]\<rparr>"

definition gapSpliced :: Package where
  "gapSpliced =
     \<lparr>m_readonly = False, m_dirty = True, m_isOpen = True, m_header = headerOf 40 3 100,
      m_fileEntries = [entryOf ''a'' 40 10 0, entryOf ''c'' 80 10 1, entryOf ''n'' 50 20 0,
                       entryOf ''d'' 90 10 0],
      m_filenames = [''a'', ''c'', ''n'', ''d''],
      m_hashTable = (replicate 256 (- 1))[97 := 0, 99 := 1, 100 := 3]\<rparr>"

definition gapFlushed :: Package where
  "gapFlushed =
     \<lparr>m_readonly = False, m_dirty = False, m_isOpen = True,
      m_header = (headerOf 40 3 100)\<lparr>filenameSize := 6\<rparr>,
      m_fileEntries = [entryOf ''a'' 40 10 0, entryOf ''n'' 50 20 0, entryOf ''d'' 90 10 0],
      m_filenames = [''a'', ''n'', ''d''],
      m_hashTable = (replicate 256 (- 1))[97 := 0, 110 := 1, 100 := 2]\<rparr>"

text \<open>
  An empty archive whose header is 8 bytes longer than \<^verbatim>\<open>sizeof(PackageHeader)\<close>, and an
  empty archive with a header of that size, each with the package opened from it.
\<close>

definition tallArchive :: archive where
  "tallArchive =
     \<lparr>packageSize = 48, storedHeader = headerOf 48 0 48,
      storedEntry = (\<lambda>i. zeroEntry), storedName = (\<lambda>i. [])\<rparr>"

definition tallOpened :: Package where
  "tallOpened =
     \<lparr>m_readonly = False, m_dirty = False, m_isOpen = True, m_header = headerOf 48 0 48,
      m_fileEntries = [], m_filenames = [], m_hashTable = replicate 256 (- 1)\<rparr>"

definition emptyArchive :: archive where
  "emptyArchive =
     \<lparr>packageSize = 40, storedHeader = headerOf 40 0 40,
      storedEntry = (\<lambda>i. zeroEntry), storedName = (\<lambda>i. [])\<rparr>"

definition emptyOpened :: Package where
  "emptyOpened =
     \<lparr>m_readonly = False, m_dirty = False, m_isOpen = True, m_header = headerOf 40 0 40,
      m_fileEntries = [], m_filenames = [], m_hashTable = replicate 256 (- 1)\<rparr>"

text \<open>
  The package after \<open>n\<close> additions of an empty file under the empty name to the empty
  package, none of them flushed; and the one after 0x80001 of them.
\<close>

definition emptyFiles :: "nat \<Rightarrow> Package" where
  "emptyFiles n =
     \<lparr>m_readonly = False, m_dirty = True, m_isOpen = True, m_header = headerOf 40 n 40,
      m_fileEntries = replicate n (entryOf [] 40 0 0),
      m_filenames = replicate n [],
      m_hashTable = replicate 256 (- 1)\<rparr>"

definition bigDirty :: Package where
  "bigDirty =
     \<lparr>m_readonly = False, m_dirty = True, m_isOpen = True, m_header = headerOf 40 0x80001 40,
      m_fileEntries = replicate 0x80001 (entryOf [] 40 0 0),
      m_filenames = replicate 0x80001 [],
      m_hashTable = replicate 256 (- 1)\<rparr>"

section \<open>Properties of the hash index\<close>

subsection \<open>The size of the table\<close>

lemma MAX_pow: "MAX_HASH_TABLE_SIZE = 2 ^ 19"
  by (simp add: MAX_HASH_TABLE_SIZE_def)

lemma tableSize_loop_stop: "\<not> t < n \<Longrightarrow> tableSize_loop t n = Some (Some t)"
  by (subst tableSize_loop.simps) (simp only: if_False)

lemma tableSize_loop_fail: "t < n \<Longrightarrow> MAX_HASH_TABLE_SIZE \<le> t \<Longrightarrow> tableSize_loop t n = Some None"
  by (subst tableSize_loop.simps) (simp only: if_True)

lemma tableSize_loop_step:
  "t < n \<Longrightarrow> t < MAX_HASH_TABLE_SIZE \<Longrightarrow> tableSize_loop t n = tableSize_loop (t * 2) n"
  by (subst tableSize_loop.simps) simp

lemma sizeSpec_weaken:
  assumes that: "sizeSpec (Suc k) n r" "2 ^ k < n"
  shows "sizeSpec k n r"
proof (cases r)
  case None
  then show ?thesis using that by (simp add: sizeSpec_def)
next
  case (Some t)
  with that obtain j where j: "t = 2 ^ j" "Suc k \<le> j" "j \<le> 19" and n: "n \<le> t"
    and t: "t = 2 ^ Suc k \<or> t < 2 * n"
    by (auto simp: sizeSpec_def)
  from t that(2) have "t < 2 * n" by auto
  moreover from j have "\<exists>j. t = 2 ^ j \<and> k \<le> j \<and> j \<le> 19" by (intro exI [of _ j]) simp
  ultimately show ?thesis using n Some by (simp add: sizeSpec_def)
qed

lemma tableSize_loop_spec:
  "k \<le> 19 \<Longrightarrow> \<exists>r. tableSize_loop (2 ^ k) n = Some r \<and> sizeSpec k n r"
proof (induction "19 - k" arbitrary: k)
  case 0
  then have k: "k = 19" by simp
  show ?case
  proof (cases "2 ^ k < n")
    case True
    then have "tableSize_loop (2 ^ k) n = Some None"
      by (intro tableSize_loop_fail) (simp_all only: k MAX_pow le_refl)
    moreover have "sizeSpec k n None"
      using True by (simp only: sizeSpec_def option.case k MAX_pow)
    ultimately show ?thesis by blast
  next
    case False
    then have "tableSize_loop (2 ^ k) n = Some (Some (2 ^ k))"
      by (rule tableSize_loop_stop)
    moreover have "sizeSpec k n (Some (2 ^ k))"
      unfolding sizeSpec_def option.case using False k by (intro conjI exI [of _ k]) simp_all
    ultimately show ?thesis by blast
  qed
next
  case (Suc d)
  then have k: "k < 19" and d: "d = 19 - Suc k" and k': "Suc k \<le> 19" by simp_all
  have lt: "(2::nat) ^ k < MAX_HASH_TABLE_SIZE"
    using k by (simp only: MAX_pow power_strict_increasing_iff)
  from Suc.hyps(1) [OF d k'] obtain r where
    r: "tableSize_loop (2 ^ Suc k) n = Some r" and rs: "sizeSpec (Suc k) n r"
    by blast
  show ?case
  proof (cases "2 ^ k < n")
    case True
    have "tableSize_loop (2 ^ k) n = tableSize_loop (2 ^ k * 2) n"
      using True lt by (rule tableSize_loop_step)
    then have "tableSize_loop (2 ^ k) n = Some r"
      using r by (simp only: power_Suc mult.commute)
    moreover have "sizeSpec k n r"
      using rs True by (rule sizeSpec_weaken)
    ultimately show ?thesis by blast
  next
    case False
    then have "tableSize_loop (2 ^ k) n = Some (Some (2 ^ k))"
      by (rule tableSize_loop_stop)
    moreover have "sizeSpec k n (Some (2 ^ k))"
      unfolding sizeSpec_def option.case using False Suc.prems by (intro conjI exI [of _ k]) simp_all
    ultimately show ?thesis by blast
  qed
qed

subsection \<open>Filling the table\<close>

lemma freeSlot_reaches:
  "length table = n \<Longrightarrow> index < n \<Longrightarrow> table ! ((index + d) mod n) = - 1 \<Longrightarrow>
     \<exists>k < n. freeSlot table index = Some k \<and> table ! k = - 1"
proof (induction d arbitrary: index)
  case 0
  then have "table ! index = - 1" by simp
  then have "freeSlot table index = Some index"
    by (subst freeSlot.simps) simp
  with 0 \<open>table ! index = - 1\<close> show ?case by blast
next
  case (Suc d)
  show ?case
  proof (cases "table ! index = - 1")
    case True
    then have "freeSlot table index = Some index"
      by (subst freeSlot.simps) simp
    with Suc.prems True show ?thesis by blast
  next
    case False
    let ?next = "if index + 1 \<ge> length table then 0 else index + 1"
    have next_mod: "?next = (index + 1) mod n"
    proof (cases "index + 1 = n")
      case True
      then show ?thesis using Suc.prems(1) by simp
    next
      case False
      then have "index + 1 < n" using Suc.prems(2) by simp
      then show ?thesis using Suc.prems(1) by simp
    qed
    have "?next < n" using Suc.prems(1,2) by auto
    moreover have "table ! ((?next + d) mod n) = - 1"
      using Suc.prems(3) by (simp only: next_mod mod_add_left_eq) (simp add: ac_simps)
    ultimately obtain k where "k < n" "freeSlot table ?next = Some k" "table ! k = - 1"
      using Suc.IH [OF Suc.prems(1)] by blast
    moreover have "freeSlot table index = freeSlot table ?next"
      using False by (subst freeSlot.simps) simp
    ultimately show ?thesis by auto
  qed
qed

lemma freeSlot_total:
  assumes "j < length table" "table ! j = - 1" "index < length table"
  shows "\<exists>k < length table. freeSlot table index = Some k \<and> table ! k = - 1"
proof -
  have "(index + (j + length table - index)) mod length table = j"
    using assms by simp
  then have "table ! ((index + (j + length table - index)) mod length table) = - 1"
    using assms(2) by simp
  then show ?thesis
    using assms(3) by (intro freeSlot_reaches [OF refl])
qed

lemma used_free: "used table < length table \<Longrightarrow> \<exists>j < length table. table ! j = - 1"
proof (rule ccontr)
  assume a: "used table < length table" and "\<not> (\<exists>j < length table. table ! j = - 1)"
  then have "\<forall>v \<in> set table. v \<noteq> - 1" by (auto simp: in_set_conv_nth)
  then have "filter (\<lambda>v. v \<noteq> - 1) table = table" by (simp add: filter_id_conv)
  with a show False by (simp add: used_def)
qed

lemma used_update:
  "k < length table \<Longrightarrow> table ! k = - 1 \<Longrightarrow> v \<noteq> - 1 \<Longrightarrow> used (table[k := v]) = Suc (used table)"
  unfolding used_def
proof (induction table arbitrary: k)
  case Nil
  then show ?case by simp
next
  case (Cons x xs)
  then show ?case by (cases k) simp_all
qed

lemma used_replicate: "used (replicate n (- 1)) = 0"
  by (simp add: used_def)

lemma fillTable_total:
  "count \<le> length es \<Longrightarrow> used table + (count - i) < length table \<Longrightarrow>
     \<exists>t. fillTable es count i table = Some (Inr t) \<and> length t = length table"
proof (induction es count i table rule: fillTable.induct)
  case (1 es count i table)
  show ?case
  proof (cases "i < count")
    case False
    then show ?thesis by (subst fillTable.simps) simp
  next
    case True
    with "1.prems" have i: "i < length es" and u: "used table < length table" by simp_all
    then have pos: "0 < length table" by (cases table) simp_all
    from used_free [OF u] obtain j where j: "j < length table" "table ! j = - 1" by blast
    have "unat (hash0 (es ! i)) mod length table < length table" using pos by simp
    from freeSlot_total [OF j this] obtain k where
      k: "k < length table" "freeSlot table (unat (hash0 (es ! i)) mod length table) = Some k"
         "table ! k = - 1" by blast
    have "used (table[k := int i]) = Suc (used table)"
      using k by (intro used_update) simp_all
    with "1.prems" True have "used (table[k := int i]) + (count - (i + 1)) < length (table[k := int i])"
      by simp
    from "1.IH" [OF True _ k(2) "1.prems"(1) this] i obtain t where
      "fillTable es count (i + 1) (table[k := int i]) = Some (Inr t)" "length t = length table"
      by auto
    then show ?thesis using True i k(2) by (subst fillTable.simps) simp
  qed
qed

lemma fillTable_length:
  "fillTable es count i table = Some (Inr t) \<Longrightarrow> length t = length table"
proof (induction es count i table rule: fillTable.induct)
  case (1 es count i table)
  show ?case
  proof (cases "i < count")
    case False
    with "1.prems" show ?thesis by (subst (asm) fillTable.simps) simp
  next
    case True
    from "1.prems" True have i: "i < length es"
      by (subst (asm) fillTable.simps) (simp split: if_splits)
    with "1.prems" True obtain k where
      k: "freeSlot table (unat (hash0 (es ! i)) mod length table) = Some k"
      and r: "fillTable es count (i + 1) (table[k := int i]) = Some (Inr t)"
      by (subst (asm) fillTable.simps) (simp split: option.splits)
    from "1.IH" [OF True _ k r] i show ?thesis by simp
  qed
qed

lemma tableSize_start:
  "\<exists>r. tableSize_loop (MIN_HASH_TABLE_SIZE div 2) n = Some r \<and> sizeSpec 7 n r"
proof -
  have "MIN_HASH_TABLE_SIZE div 2 = 2 ^ 7" by (simp add: MIN_HASH_TABLE_SIZE_def)
  then show ?thesis using tableSize_loop_spec [of 7 n] by simp
qed

lemma buildHashTable_fails:
  assumes "MAX_HASH_TABLE_SIZE < unat (fileCount (m_header s))"
  shows "buildHashTable s = Some (Inr (False, s))"
proof -
  obtain r where r: "tableSize_loop (MIN_HASH_TABLE_SIZE div 2) (unat (fileCount (m_header s))) = Some r"
    and sp: "sizeSpec 7 (unat (fileCount (m_header s))) r"
    using tableSize_start by blast
  have "r = None"
  proof (cases r)
    case (Some t)
    with sp obtain j where "t = 2 ^ j" "j \<le> 19" "unat (fileCount (m_header s)) \<le> t"
      by (auto simp: sizeSpec_def)
    then have "unat (fileCount (m_header s)) \<le> 2 ^ 19"
      using power_increasing [of j 19 "2::nat"] by simp
    with assms show ?thesis by (simp add: MAX_pow)
  qed simp
  with r show ?thesis by (simp add: buildHashTable_def)
qed

lemma buildHashTable_True_size:
  assumes "buildHashTable s = Some (Inr (True, s'))"
  shows "\<exists>t j. tableSize_loop (MIN_HASH_TABLE_SIZE div 2) (unat (fileCount (m_header s))) = Some (Some t)
           \<and> t = 2 ^ j \<and> 7 \<le> j \<and> j \<le> 19 \<and> unat (fileCount (m_header s)) \<le> t
           \<and> length (m_hashTable s') = 2 * t \<and> s' = s\<lparr>m_hashTable := m_hashTable s'\<rparr>"
proof -
  obtain r where r: "tableSize_loop (MIN_HASH_TABLE_SIZE div 2) (unat (fileCount (m_header s))) = Some r"
    and sp: "sizeSpec 7 (unat (fileCount (m_header s))) r"
    using tableSize_start by blast
  from assms r obtain t where t: "r = Some t"
    by (cases r) (auto simp: buildHashTable_def)
  with assms r obtain table where
    f: "fillTable (m_fileEntries s) (unat (fileCount (m_header s))) 0 (replicate (t * 2) (- 1)) = Some (Inr table)"
    and s': "s' = s\<lparr>m_hashTable := table\<rparr>"
    by (simp add: buildHashTable_def split: option.splits sum.splits)
  from fillTable_length [OF f] have "length table = 2 * t" by simp
  moreover from sp t obtain j where "t = 2 ^ j" "7 \<le> j" "j \<le> 19" "unat (fileCount (m_header s)) \<le> t"
    by (auto simp: sizeSpec_def)
  ultimately show ?thesis using r t s' by auto
qed

lemma buildHashTable_total:
  assumes "unat (fileCount (m_header s)) \<le> length (m_fileEntries s)"
    and "unat (fileCount (m_header s)) \<le> MAX_HASH_TABLE_SIZE"
  shows "\<exists>table. buildHashTable s = Some (Inr (True, s\<lparr>m_hashTable := table\<rparr>))"
proof -
  let ?n = "unat (fileCount (m_header s))"
  obtain r where r: "tableSize_loop (MIN_HASH_TABLE_SIZE div 2) ?n = Some r"
    and sp: "sizeSpec 7 ?n r"
    using tableSize_start by blast
  from sp assms(2) obtain t where t: "r = Some t" by (cases r) (auto simp: sizeSpec_def)
  with sp obtain j where j: "t = 2 ^ j" and n: "?n \<le> t" by (auto simp: sizeSpec_def)
  from j have "0 < t" by simp
  with n have "used (replicate (t * 2) (- 1)) + (?n - 0) < length (replicate (t * 2) (- 1 :: int))"
    by (simp add: used_replicate)
  from fillTable_total [OF assms(1) this] obtain table where
    "fillTable (m_fileEntries s) ?n 0 (replicate (t * 2) (- 1)) = Some (Inr table)" by blast
  with r t have "buildHashTable s = Some (Inr (True, s\<lparr>m_hashTable := table\<rparr>))"
    by (simp add: buildHashTable_def)
  then show ?thesis by blast
qed


lemma tableSize_loop_128: "tableSize_loop (MIN_HASH_TABLE_SIZE div 2) 128 = Some (Some 128)"
  by (subst tableSize_loop.simps) (simp add: MIN_HASH_TABLE_SIZE_def)

lemma tableSize_loop_big: "tableSize_loop (MIN_HASH_TABLE_SIZE div 2) 0x40001 = Some (Some 0x80000)"
  by (simp add: tableSize_loop.simps MIN_HASH_TABLE_SIZE_def MAX_HASH_TABLE_SIZE_def)

lemma buildHashTable_packageOf:
  assumes "length es < 2 ^ 32" "tableSize_loop (MIN_HASH_TABLE_SIZE div 2) (length es) = Some (Some t)"
    and "m = 2 * t"
  shows "case buildHashTable (packageOf es) of
           Some (Inr (built, s')) \<Rightarrow> built \<and> length (m_hashTable s') = m
         | _ \<Rightarrow> False"
proof -
  have n: "unat (fileCount (m_header (packageOf es))) = length es"
    using assms(1) by (simp add: packageOf_def unat_of_nat)
  have e: "m_fileEntries (packageOf es) = es" by (simp add: packageOf_def)
  obtain r where sp: "tableSize_loop (MIN_HASH_TABLE_SIZE div 2) (length es) = Some r" "sizeSpec 7 (length es) r"
    using tableSize_start by blast
  with assms(2) obtain j where "t = 2 ^ j" "j \<le> 19" "length es \<le> t"
    by (auto simp: sizeSpec_def)
  then have "length es \<le> 2 ^ 19"
    using power_increasing [of j 19 "2::nat"] by simp
  then have "length es \<le> MAX_HASH_TABLE_SIZE" by (simp only: MAX_pow)
  with n e obtain table where
    b: "buildHashTable (packageOf es) = Some (Inr (True, (packageOf es)\<lparr>m_hashTable := table\<rparr>))"
    using buildHashTable_total [of "packageOf es"] by auto
  from buildHashTable_True_size [OF b] assms(2) n have "length table = m" using assms(3) by auto
  with b show ?thesis by simp
qed

lemma buildHashTable_packageOne:
  "buildHashTable packageOne = Some (Inr (True, packageOne\<lparr>m_hashTable := (replicate 256 (- 1))[0 := 0]\<rparr>))"
  by (simp add: buildHashTable_def packageOne_def packageOf_def zeroHeader_def zeroEntry_def
      tableSize_loop.simps fillTable.simps freeSlot.simps MIN_HASH_TABLE_SIZE_def)


subsection \<open>The lookup\<close>

text \<open>
  The probing loop of \<^verbatim>\<open>getFileIndex\<close> never divides: the modulo by the table size is
  taken once, before the loop.
\<close>

lemma probe_no_modulo:
  assumes "probe es table h0 h1 h2 hashIndex fileIndex = Some r"
  shows "r \<noteq> Inl ModuloByZero"
  by (rule probe.raw_induct [where P = "\<lambda>es table h0 h1 h2 hashIndex fileIndex r. r \<noteq> Inl ModuloByZero",
        OF _ assms])
     (auto split: if_splits)

lemma getFileIndex_modulo_iff:
  "getFileIndex s filename = Some (Inl ModuloByZero) \<longleftrightarrow> m_hashTable s = []"
  by (auto simp: getFileIndex_def Let_def dest: probe_no_modulo)

lemma probe_step:
  assumes "0 \<le> fileIndex" "nat fileIndex < length es" "\<not> hashMatch (es ! nat fileIndex) h0 h1 h2"
    and "nxt = (if hashIndex + 1 \<ge> length table then 0 else hashIndex + 1)"
  shows "probe es table h0 h1 h2 hashIndex fileIndex = probe es table h0 h1 h2 nxt (table ! nxt)"
  using assms by (subst probe.simps) simp

lemma probe_chain:
  assumes "length table = n" "hashIndex < n"
    and "\<forall>j<k. 0 \<le> table ! ((hashIndex + j) mod n)
           \<and> nat (table ! ((hashIndex + j) mod n)) < length es
           \<and> \<not> hashMatch (es ! nat (table ! ((hashIndex + j) mod n))) h0 h1 h2"
    and "0 \<le> table ! ((hashIndex + k) mod n)"
    and "nat (table ! ((hashIndex + k) mod n)) < length es"
    and "hashMatch (es ! nat (table ! ((hashIndex + k) mod n))) h0 h1 h2"
  shows "probe es table h0 h1 h2 hashIndex (table ! hashIndex) =
           Some (Inr (if deleted (es ! nat (table ! ((hashIndex + k) mod n))) then - 1
                      else table ! ((hashIndex + k) mod n)))"
  using assms
proof (induction k arbitrary: hashIndex)
  case 0
  then show ?case by (subst probe.simps) simp
next
  case (Suc k)
  let ?next = "(hashIndex + 1) mod n"
  have step: "(if hashIndex + 1 \<ge> length table then 0 else hashIndex + 1) = ?next"
  proof (cases "hashIndex + 1 = n")
    case True
    then show ?thesis using Suc.prems(1) by simp
  next
    case False
    then have "hashIndex + 1 < n" using Suc.prems(2) by simp
    then show ?thesis using Suc.prems(1) by simp
  qed
  have shift: "(?next + j) mod n = (hashIndex + Suc j) mod n" for j
    by (simp only: mod_add_left_eq) (simp add: ac_simps)
  have lt: "?next < n" using Suc.prems(2) by simp
  have rest: "\<forall>j<k. 0 \<le> table ! ((?next + j) mod n)
           \<and> nat (table ! ((?next + j) mod n)) < length es
           \<and> \<not> hashMatch (es ! nat (table ! ((?next + j) mod n))) h0 h1 h2"
    unfolding shift using Suc.prems(3) by auto
  have hit: "0 \<le> table ! ((?next + k) mod n)"
    "nat (table ! ((?next + k) mod n)) < length es"
    "hashMatch (es ! nat (table ! ((?next + k) mod n))) h0 h1 h2"
    unfolding shift using Suc.prems(4,5,6) by auto
  have IH: "probe es table h0 h1 h2 ?next (table ! ?next) =
           Some (Inr (if deleted (es ! nat (table ! ((hashIndex + Suc k) mod n))) then - 1
                      else table ! ((hashIndex + Suc k) mod n)))"
    using Suc.IH [OF Suc.prems(1) lt rest hit] unfolding shift .
  from Suc.prems(3) have here: "0 \<le> table ! hashIndex" "nat (table ! hashIndex) < length es"
    "\<not> hashMatch (es ! nat (table ! hashIndex)) h0 h1 h2"
    using Suc.prems(2) by (auto dest: spec [of _ 0])
  show ?case
    using probe_step [OF here step [symmetric]] IH by simp
qed

lemma stringHash_a: "stringHash ''a'' seed = 97"
  by (simp add: stringHash_def charValue_def tolower_def)

lemma stringHash_b: "stringHash ''b'' seed = 98"
  by (simp add: stringHash_def charValue_def tolower_def)

section \<open>Properties of the loaders\<close>

text \<open>Each loader changes its own part of the package only.\<close>

lemma buildHashTable_frame:
  "buildHashTable s = Some (Inr (built, s')) \<Longrightarrow>
     m_readonly s' = m_readonly s \<and> m_dirty s' = m_dirty s \<and> m_isOpen s' = m_isOpen s
     \<and> m_header s' = m_header s \<and> m_fileEntries s' = m_fileEntries s
     \<and> m_filenames s' = m_filenames s"
  by (auto simp: buildHashTable_def split: option.splits sum.splits)

lemma readHeader_frame:
  "readHeader A a s = (ok, s') \<Longrightarrow>
     m_hashTable s' = m_hashTable s \<and> m_isOpen s' = m_isOpen s \<and> m_fileEntries s' = m_fileEntries s
     \<and> m_filenames s' = m_filenames s \<and> m_dirty s' = m_dirty s"
  by (auto simp: readHeader_def Let_def split: if_splits)

lemma readFileEntries_frame:
  "readFileEntries a s = (ok, s') \<Longrightarrow>
     m_readonly s' = m_readonly s \<and> m_dirty s' = m_dirty s \<and> m_isOpen s' = m_isOpen s
     \<and> m_header s' = m_header s \<and> m_filenames s' = m_filenames s
     \<and> m_hashTable s' = m_hashTable s"
  by (auto simp: readFileEntries_def split: prod.splits)

lemma readFilenames_frame:
  "readFilenames a s = (ok, s') \<Longrightarrow>
     ok \<and> m_readonly s' = m_readonly s \<and> m_dirty s' = m_dirty s \<and> m_isOpen s' = m_isOpen s
     \<and> m_header s' = m_header s \<and> m_fileEntries s' = m_fileEntries s
     \<and> m_hashTable s' = m_hashTable s"
  by (auto simp: readFilenames_def split: if_splits)

lemma openPackage_invalid:
  assumes "openPackage A file readonly = Some (Inr s)" "\<not> valid s"
  shows "m_hashTable s = [] \<and> \<not> m_dirty s"
proof (cases "file")
  case None
  with assms show ?thesis by (auto simp: openPackage_def newPackage_def)
next
  case (Some a)
  obtain ok1 s1 where r1: "readHeader A a (newPackage readonly True) = (ok1, s1)" by force
  obtain ok2 s2 where r2: "readFileEntries a s1 = (ok2, s2)" by force
  obtain ok3 s3 where r3: "readFilenames a s2 = (ok3, s3)" by force
  have f1: "m_hashTable s1 = [] \<and> m_isOpen s1 \<and> \<not> m_dirty s1"
    using readHeader_frame [OF r1] by (simp add: newPackage_def)
  have f2: "m_hashTable s2 = [] \<and> m_isOpen s2 \<and> \<not> m_dirty s2"
    using readFileEntries_frame [OF r2] f1 by simp
  have f3: "ok3 \<and> m_hashTable s3 = [] \<and> m_isOpen s3 \<and> \<not> m_dirty s3"
    using readFilenames_frame [OF r3] f2 by simp
  show ?thesis
  proof (cases ok1)
    case False
    with assms(1) Some r1 have "s = s1\<lparr>m_isOpen := False\<rparr>"
      by (simp add: openPackage_def)
    with f1 show ?thesis by simp
  next
    case ok1: True
    show ?thesis
    proof (cases ok2)
      case False
      with assms(1) Some r1 r2 ok1 have "s = s2\<lparr>m_isOpen := False\<rparr>"
        by (simp add: openPackage_def)
      with f2 show ?thesis by simp
    next
      case True
      with assms(1) Some r1 r2 r3 f3 ok1 obtain built where "buildHashTable s3 = Some (Inr (built, s))"
        by (auto simp: openPackage_def split: option.splits sum.splits)
      from buildHashTable_frame [OF this] f3 have "m_isOpen s" by simp
      with assms(2) show ?thesis by (simp add: valid_def)
    qed
  qed
qed

lemma openPackage_badArchive:
  "openPackage exampleAbi (Some badArchive) False =
     Some (Inr ((newPackage False False)\<lparr>m_header := storedHeader badArchive\<rparr>))"
  by (simp add: openPackage_def readHeader_def badArchive_def exampleAbi_def headerOf_def
      newPackage_def Let_def)

lemma readFileEntries_loop_const:
  assumes "\<And>j. storedEntry a j = e" "byteOffset e = nextOffset" "fileSize e = 0"
    and "nextOffset < fileEntryOffset h"
  shows "i \<le> unat (fileCount h) \<Longrightarrow> length es = unat (fileCount h) \<Longrightarrow>
    readFileEntries_loop a h i nextOffset es = (True, take i es @ replicate (unat (fileCount h) - i) e)"
proof (induction "unat (fileCount h) - i" arbitrary: i es)
  case 0
  then show ?case by (subst readFileEntries_loop.simps) simp
next
  case (Suc d)
  then have i: "i < unat (fileCount h)" and d: "d = unat (fileCount h) - (i + 1)" by simp_all
  have len: "length (es[i := e]) = unat (fileCount h)" using Suc.prems by simp
  have "readFileEntries_loop a h (i + 1) nextOffset (es[i := e]) =
      (True, take (i + 1) (es[i := e]) @ replicate (unat (fileCount h) - (i + 1)) e)"
    using Suc.hyps(1) [OF d _ len] i by simp
  moreover have "take (i + 1) (es[i := e]) = take i es @ [e]"
    using i Suc.prems(2) by (simp add: take_Suc_conv_app_nth)
  moreover have "replicate (unat (fileCount h) - i) e = e # replicate (unat (fileCount h) - (i + 1)) e"
    using i by (cases "unat (fileCount h) - i") simp_all
  ultimately show ?case
    using i assms by (subst readFileEntries_loop.simps) (simp add: not_le [symmetric])
qed

lemma readHeader_bigArchive:
  "readHeader exampleAbi bigArchive (newPackage True True) =
     (True, (newPackage True True)\<lparr>m_header := storedHeader bigArchive\<rparr>)"
  by (simp add: readHeader_def bigArchive_def exampleAbi_def headerOf_def newPackage_def Let_def)

lemma readFileEntries_bigArchive:
  "readFileEntries bigArchive ((newPackage True True)\<lparr>m_header := storedHeader bigArchive\<rparr>) =
     (True, bigLoaded)"
proof -
  let ?h = "storedHeader bigArchive"
  have n: "unat (fileCount ?h) = 0x80001" by (simp add: bigArchive_def headerOf_def)
  have "readFileEntries_loop bigArchive ?h 0 (ucast (headerSize ?h))
          (replicate (unat (fileCount ?h)) zeroEntry) =
        (True, take 0 (replicate (unat (fileCount ?h)) zeroEntry)
               @ replicate (unat (fileCount ?h) - 0) (entryOf [] 40 0 0))"
    by (rule readFileEntries_loop_const)
       (simp_all add: bigArchive_def headerOf_def entryOf_def)
  then show ?thesis
    by (simp add: readFileEntries_def bigLoaded_def n)
qed

section \<open>First-fit placement\<close>

text \<open>The scan of \<^verbatim>\<open>insertFile\<close> returns the first entry that fits, if there is one.\<close>

lemma gapFits_0: "gapFits start (e # es) sz 0 \<longleftrightarrow> \<not> deleted e \<and> ucast sz \<le> byteOffset e - start"
  by (simp add: gapFits_def lastEndOf_def)

lemma gapFits_Suc: "gapFits start (e # es) sz (Suc j) = gapFits (advance start e) es sz j"
  by (simp add: gapFits_def lastEndOf_def)

lemma insertFile_scan_first_fit:
  "i < length es \<Longrightarrow> gapFits start es sz i \<Longrightarrow> \<forall>j<i. \<not> gapFits start es sz j \<Longrightarrow>
     insertFile_scan es sz idx start = Some (idx + i, lastEndOf start (take i es))"
proof (induction es arbitrary: i idx start)
  case Nil
  then show ?case by simp
next
  case (Cons e es)
  show ?case
  proof (cases i)
    case 0
    with Cons.prems(2) show ?thesis by (simp add: gapFits_0 lastEndOf_def)
  next
    case (Suc i')
    with Cons.prems have i': "i' < length es" and fit: "gapFits (advance start e) es sz i'"
      and before: "\<forall>j<i'. \<not> gapFits (advance start e) es sz j"
      and here: "\<not> gapFits start (e # es) sz 0"
      by (auto simp: gapFits_Suc [symmetric])
    from Cons.IH [OF i' fit before, of "idx + 1"]
    have IH: "insertFile_scan es sz (idx + 1) (advance start e) =
                Some (idx + i, lastEndOf start (take i (e # es)))"
      using Suc by (simp add: lastEndOf_def)
    show ?thesis
    proof (cases "deleted e")
      case True
      with IH show ?thesis by (simp add: advance_def)
    next
      case False
      with here have "\<not> ucast sz \<le> byteOffset e - start" by (simp add: gapFits_0)
      with False IH show ?thesis by (simp add: advance_def)
    qed
  qed
qed

lemma insertFile_scan_no_fit:
  "\<forall>j<length es. \<not> gapFits start es sz j \<Longrightarrow> insertFile_scan es sz idx start = None"
proof (induction es arbitrary: idx start)
  case Nil
  then show ?case by simp
next
  case (Cons e es)
  then have here: "\<not> gapFits start (e # es) sz 0"
    and rest: "\<forall>j<length es. \<not> gapFits (advance start e) es sz j"
    by (auto simp: gapFits_Suc [symmetric])
  from Cons.IH [OF rest] have IH: "insertFile_scan es sz (idx + 1) (advance start e) = None" .
  show ?case
  proof (cases "deleted e")
    case True
    with IH show ?thesis by (simp add: advance_def)
  next
    case False
    with here have "\<not> ucast sz \<le> byteOffset e - start" by (simp add: gapFits_0)
    with False IH show ?thesis by (simp add: advance_def)
  qed
qed

lemmas example_defs =
  examplePackage_def headerOf_def entryOf_def exampleAbi_def deleted_def FILE_FLAG_DELETED_def
  gapFits_def lastEndOf_def advance_def insertAt_def

section \<open>The layout invariant\<close>

subsection \<open>Packed and chained tables\<close>

lemma liveEnd_Nil [simp]: "liveEnd a [] = a"
  by (simp add: liveEnd_def)

lemma liveEnd_Cons [simp]:
  "liveEnd a (e # es) = liveEnd (if deleted e then a else fin e) es"
  by (simp add: liveEnd_def)

lemma liveEnd_append: "liveEnd a (xs @ ys) = liveEnd (liveEnd a xs) ys"
  by (simp add: liveEnd_def)

lemma off_le_fin: "unat (byteOffset e) \<le> fin e"
  by (simp add: fin_def)

lemma packed_mono: "packed b es \<Longrightarrow> a \<le> b \<Longrightarrow> packed a es"
  by (induction es arbitrary: a b) (auto split: if_splits)

lemma chained_mono: "chained b es \<Longrightarrow> a \<le> b \<Longrightarrow> chained a es"
  by (cases es) auto

lemma chained_packed: "chained a es \<Longrightarrow> packed a es"
proof (induction es arbitrary: a)
  case (Cons e es)
  then show ?case
    using off_le_fin [of e] by (auto intro: packed_mono [of "fin e"])
qed simp

lemma liveEnd_mono: "a \<le> b \<Longrightarrow> liveEnd a es \<le> liveEnd b es"
  by (induction es arbitrary: a b) auto

lemma liveEnd_ge: "packed a es \<Longrightarrow> a \<le> liveEnd a es"
proof (induction es arbitrary: a)
  case (Cons e es)
  show ?case
  proof (cases "deleted e")
    case True
    with Cons show ?thesis by simp
  next
    case False
    with Cons.prems have "a \<le> fin e" "packed (fin e) es"
      using off_le_fin [of e] by auto
    with Cons.IH [of "fin e"] False show ?thesis by simp
  qed
qed simp

lemma packed_append:
  "packed a (xs @ ys) \<longleftrightarrow> packed a xs \<and> packed (liveEnd a xs) ys"
  by (induction xs arbitrary: a) auto

lemma packed_live_fin: "packed a es \<Longrightarrow> e \<in> set es \<Longrightarrow> \<not> deleted e \<Longrightarrow> fin e \<le> liveEnd a es"
proof (induction es arbitrary: a)
  case (Cons x es)
  show ?case
  proof (cases "e = x")
    case True
    with Cons.prems have "packed (fin e) es" by simp
    from liveEnd_ge [OF this] True Cons.prems(3) show ?thesis by simp
  next
    case False
    with Cons.prems have e: "e \<in> set es" by simp
    show ?thesis
    proof (cases "deleted x")
      case True
      with Cons.prems have "packed a es" by simp
      from Cons.IH [OF this e Cons.prems(3)] True show ?thesis by simp
    next
      case False
      with Cons.prems have "packed (fin x) es" by simp
      from Cons.IH [OF this e Cons.prems(3)] False show ?thesis by simp
    qed
  qed
qed simp

lemma packed_live_bounds:
  "packed a es \<Longrightarrow> e \<in> set es \<Longrightarrow> \<not> deleted e \<Longrightarrow> a \<le> unat (byteOffset e) \<and> fin e < 2 ^ 64"
proof (induction es arbitrary: a)
  case (Cons x es)
  show ?case
  proof (cases "e = x")
    case True
    with Cons.prems show ?thesis by simp
  next
    case False
    with Cons.prems have e: "e \<in> set es" by simp
    show ?thesis
    proof (cases "deleted x")
      case True
      with Cons.prems have "packed a es" by simp
      from Cons.IH [OF this e Cons.prems(3)] show ?thesis .
    next
      case False
      with Cons.prems have p: "packed (fin x) es" and "a \<le> unat (byteOffset x)" by simp_all
      then have "a \<le> fin x" using off_le_fin [of x] by simp
      with Cons.IH [OF p e Cons.prems(3)] show ?thesis by simp
    qed
  qed
qed simp

lemma packed_sorted:
  "packed a es \<Longrightarrow> sorted (map byteOffset (filter (\<lambda>e. \<not> deleted e) es))"
proof (induction es arbitrary: a)
  case (Cons x es)
  show ?case
  proof (cases "deleted x")
    case True
    with Cons show ?thesis by simp
  next
    case False
    with Cons.prems have p: "packed (fin x) es" by simp
    have "byteOffset x \<le> byteOffset e" if "e \<in> set es" "\<not> deleted e" for e
    proof -
      from packed_live_bounds [OF p that] have "fin x \<le> unat (byteOffset e)" by simp
      then have "unat (byteOffset x) \<le> unat (byteOffset e)" using off_le_fin [of x] by simp
      then show ?thesis by (simp add: word_le_nat_alt)
    qed
    with Cons.IH [OF p] False show ?thesis by auto
  qed
qed simp

lemma chained_bounds:
  "chained a es \<Longrightarrow> e \<in> set es \<Longrightarrow> a \<le> unat (byteOffset e) \<and> fin e < 2 ^ 64"
proof (induction es arbitrary: a)
  case (Cons x es)
  show ?case
  proof (cases "e = x")
    case True
    with Cons.prems show ?thesis by simp
  next
    case False
    with Cons.prems have e: "e \<in> set es" and p: "chained (fin x) es"
      and "a \<le> unat (byteOffset x)" by simp_all
    then have "a \<le> fin x" using off_le_fin [of x] by simp
    with Cons.IH [OF p e] show ?thesis by simp
  qed
qed simp

lemma chained_sorted: "chained a es \<Longrightarrow> sorted (map byteOffset es)"
proof (induction es arbitrary: a)
  case (Cons x es)
  then have p: "chained (fin x) es" by simp
  have "byteOffset x \<le> byteOffset e" if "e \<in> set es" for e
  proof -
    from chained_bounds [OF p that] have "fin x \<le> unat (byteOffset e)" by simp
    then have "unat (byteOffset x) \<le> unat (byteOffset e)" using off_le_fin [of x] by simp
    then show ?thesis by (simp add: word_le_nat_alt)
  qed
  with Cons.IH [OF p] show ?case by auto
qed simp

lemma chained_last:
  "chained a es \<Longrightarrow> es \<noteq> [] \<Longrightarrow> a \<le> fin (last es) \<and> (\<forall>e \<in> set es. fin e \<le> fin (last es))"
proof (induction es arbitrary: a)
  case (Cons x es)
  show ?case
  proof (cases "es = []")
    case True
    with Cons.prems show ?thesis using off_le_fin [of x] by simp
  next
    case False
    from Cons.prems have p: "chained (fin x) es" and a: "a \<le> fin x"
      using off_le_fin [of x] by simp_all
    from Cons.IH [OF p False] a False show ?thesis by auto
  qed
qed simp

lemma liveEnd_cases: "liveEnd a es = a \<or> (\<exists>e \<in> set es. \<not> deleted e \<and> liveEnd a es = fin e)"
proof (induction es arbitrary: a)
  case (Cons x es)
  show ?case
  proof (cases "deleted x")
    case True
    with Cons.IH [of a] show ?thesis by auto
  next
    case False
    with Cons.IH [of "fin x"] show ?thesis by auto
  qed
qed simp

subsection \<open>Offsets without wrap-around\<close>

lemma unat_size_less [simp]: "unat (x :: u32) < 18446744073709551616"
  using unsigned_less [of x, where 'a = nat] by simp

lemma unat_ucast_size [simp]: "unat (ucast (x :: u32) :: u64) = unat x"
  by (simp add: unsigned_ucast_eq take_bit_nat_eq_self)

lemma unat_end:
  "fin e < 2 ^ 64 \<Longrightarrow> unat (byteOffset e + ucast (fileSize e)) = fin e"
  unfolding fin_def by (subst unat_add_lem [THEN iffD1]) simp_all

lemma unat_lastEndOf:
  "packed (unat start) es \<Longrightarrow> unat (lastEndOf start es) = liveEnd (unat start) es"
proof (induction es arbitrary: start)
  case Nil
  then show ?case by (simp add: lastEndOf_def)
next
  case (Cons e es)
  show ?case
  proof (cases "deleted e")
    case True
    with Cons show ?thesis by (simp add: lastEndOf_def advance_def)
  next
    case False
    with Cons.prems have f: "fin e < 2 ^ 64" and p: "packed (fin e) es" by simp_all
    from p have "packed (unat (byteOffset e + ucast (fileSize e))) es"
      by (simp add: unat_end [OF f])
    from Cons.IH [OF this] False f show ?thesis
      by (simp add: lastEndOf_def advance_def unat_end)
  qed
qed

lemma insertFile_scan_Some:
  "insertFile_scan es sz idx start = Some (j, le) \<Longrightarrow>
     \<exists>i<length es. j = idx + i \<and> gapFits start es sz i \<and> le = lastEndOf start (take i es)"
proof (induction es arbitrary: idx start)
  case Nil
  then show ?case by simp
next
  case (Cons e es)
  show ?case
  proof (cases "\<not> deleted e \<and> ucast sz \<le> byteOffset e - start")
    case True
    with Cons.prems have "j = idx" "le = start" by simp_all
    with True show ?thesis
      by (intro exI [of _ 0]) (simp add: gapFits_0 lastEndOf_def)
  next
    case False
    with Cons.prems have "insertFile_scan es sz (idx + 1) (advance start e) = Some (j, le)"
      by (auto simp: advance_def split: if_splits)
    from Cons.IH [OF this] obtain i where i: "i < length es" "j = idx + 1 + i"
      "gapFits (advance start e) es sz i" "le = lastEndOf (advance start e) (take i es)"
      by blast
    then show ?thesis
      by (intro exI [of _ "Suc i"]) (simp add: gapFits_Suc lastEndOf_def)
  qed
qed

lemma insertFile_scan_None:
  "insertFile_scan es sz idx start = None \<Longrightarrow> \<forall>i<length es. \<not> gapFits start es sz i"
proof (induction es arbitrary: idx start)
  case Nil
  then show ?case by simp
next
  case (Cons e es)
  then have here: "\<not> gapFits start (e # es) sz 0"
    and "insertFile_scan es sz (idx + 1) (advance start e) = None"
    by (auto simp: gapFits_0 advance_def split: if_splits)
  from Cons.IH [OF this(2)] here show ?case
    by (auto simp: All_less_Suc2 gapFits_Suc)
qed

text \<open>A splice keeps the live entries packed and the tail of the table as it is.\<close>

lemma splice_packed:
  assumes p: "packed a es" and i: "i < length es" and live: "\<not> deleted (es ! i)"
    and n: "\<not> deleted e'" "unat (byteOffset e') = liveEnd a (take i es)"
       "fin e' \<le> unat (byteOffset (es ! i))"
  shows "packed a (insertAt i e' es) \<and> liveEnd a (insertAt i e' es) = liveEnd a es
         \<and> last (insertAt i e' es) = last es"
proof -
  have es: "es = take i es @ es ! i # drop (Suc i) es"
    using i by (rule id_take_nth_drop)
  have ins: "insertAt i e' es = take i es @ e' # es ! i # drop (Suc i) es"
    using i by (simp add: insertAt_def Cons_nth_drop_Suc)
  from p es have p1: "packed a (take i es)"
    and p2: "packed (liveEnd a (take i es)) (es ! i # drop (Suc i) es)"
    by (metis packed_append)+
  from p2 live have f: "fin (es ! i) < 2 ^ 64" and p3: "packed (fin (es ! i)) (drop (Suc i) es)"
    by simp_all
  from n(3) f have "fin e' < 2 ^ 64" using off_le_fin [of "es ! i"] by simp
  with p1 p3 n live f have "packed a (insertAt i e' es)"
    by (simp add: ins packed_append)
  moreover have "liveEnd a (insertAt i e' es) = liveEnd a es"
    using n(1) live by (subst (2) es) (simp add: ins liveEnd_append)
  moreover have "last (insertAt i e' es) = last es"
    by (subst (2) es) (simp add: ins)
  ultimately show ?thesis by simp
qed

lemma layoutOk_mono: "layoutOk A B s \<Longrightarrow> B \<le> B' \<Longrightarrow> layoutOk A B' s"
  by (auto simp: layoutOk_def)

lemma unat_sub_le:
  fixes a b :: u64
  assumes "unat b \<le> unat a"
  shows "unat (a - b) = unat a - unat b"
  using assms by (simp add: unat_sub word_le_nat_alt)

lemma insertFile_layout:
  assumes inv: "layoutOk A B s" and B: "B + 2 ^ 32 < 2 ^ 64" and live: "\<not> deleted entry"
    and ins: "insertFile A s entry filename = Inr (entry', s')"
  shows "headerSize (m_header s') = headerSize (m_header s)
    \<and> packed (unat (headerSize (m_header s))) (m_fileEntries s')
    \<and> m_fileEntries s' \<noteq> []
    \<and> liveEnd (unat (headerSize (m_header s))) (m_fileEntries s') \<le> fin (last (m_fileEntries s'))
    \<and> fin (last (m_fileEntries s')) \<le> B + 2 ^ 32"
proof -
  let ?hs = "unat (headerSize (m_header s))"
  let ?es = "m_fileEntries s"
  let ?start = "ucast (headerSize (m_header s)) :: u64"
  have start: "unat ?start = ?hs" by simp
  from inv have hsz: "?hs = sizeof_PackageHeader A" and hB: "?hs \<le> B" and p: "packed ?hs ?es"
    and tail: "?es = [] \<or> (liveEnd ?hs ?es \<le> fin (last ?es) \<and> fin (last ?es) \<le> B)"
    unfolding layoutOk_def by blast+
  have sz: "unat (fileSize entry) < 2 ^ 32"
    using unsigned_less [of "fileSize entry", where 'a = nat] by simp
  show ?thesis
  proof (cases "insertFile_scan ?es (fileSize entry) 0 ?start")
    case (Some r)
    obtain j le where r: "r = (j, le)" by (cases r)
    from insertFile_scan_Some [OF Some [unfolded r]] obtain i where i: "i < length ?es" "j = i"
      and fit: "gapFits ?start ?es (fileSize entry) i" and le: "le = lastEndOf ?start (take i ?es)"
      by auto
    from ins Some r i have e': "entry' = entry\<lparr>byteOffset := le\<rparr>"
      and s': "m_fileEntries s' = insertAt i entry' ?es" "m_header s' = m_header s"
      by (auto simp: insertFile_def Let_def split: if_splits)
    have es: "?es = take i ?es @ ?es ! i # drop (Suc i) ?es"
      using i(1) by (rule id_take_nth_drop)
    from p es have p1: "packed ?hs (take i ?es)"
      and p2: "packed (liveEnd ?hs (take i ?es)) (?es ! i # drop (Suc i) ?es)"
      by (metis packed_append)+
    from fit have li: "\<not> deleted (?es ! i)" and gap: "ucast (fileSize entry) \<le> byteOffset (?es ! i) - le"
      by (simp_all add: gapFits_def le)
    from p1 have ule: "unat le = liveEnd ?hs (take i ?es)"
      unfolding le by (subst unat_lastEndOf) (simp_all only: start)
    from p2 li have below: "liveEnd ?hs (take i ?es) \<le> unat (byteOffset (?es ! i))" by simp
    with ule have "unat (byteOffset (?es ! i) - le) = unat (byteOffset (?es ! i)) - unat le"
      by (intro unat_sub_le) simp
    with gap have "unat (fileSize entry) \<le> unat (byteOffset (?es ! i)) - unat le"
      by (simp add: word_le_nat_alt)
    with below ule have fit': "fin entry' \<le> unat (byteOffset (?es ! i))"
      by (simp add: fin_def e')
    have live': "\<not> deleted entry'" using live by (simp add: e' deleted_def)
    have off': "unat (byteOffset entry') = liveEnd ?hs (take i ?es)" using ule by (simp add: e')
    from splice_packed [OF p i(1) li live' off' fit']
    have "packed ?hs (insertAt i entry' ?es)" "liveEnd ?hs (insertAt i entry' ?es) = liveEnd ?hs ?es"
      "last (insertAt i entry' ?es) = last ?es" by simp_all
    moreover from i(1) have "?es \<noteq> []" by auto
    moreover have "insertAt i entry' ?es \<noteq> []" by (simp add: insertAt_def)
    ultimately show ?thesis using tail s' by auto
  next
    case None
    define off :: u64 where "off = (if ?es = [] then of_nat (sizeof_PackageHeader A)
                else byteOffset (last ?es) + ucast (fileSize (last ?es)))"
    from ins None have e': "entry' = entry\<lparr>byteOffset := off\<rparr>"
      and s': "m_fileEntries s' = ?es @ [entry']" "headerSize (m_header s') = headerSize (m_header s)"
      by (auto simp: insertFile_def Let_def off_def split: if_splits)
    have live': "\<not> deleted entry'" using live by (simp add: e' deleted_def)
    have off: "unat off = (if ?es = [] then ?hs else fin (last ?es))"
    proof (cases "?es = []")
      case True
      have "(of_nat (sizeof_PackageHeader A) :: u64) = ?start"
        unfolding hsz [symmetric] by (metis of_nat_unat)
      with True show ?thesis by (simp add: off_def)
    next
      case False
      with tail B have "fin (last ?es) < 2 ^ 64" by simp
      from unat_end [OF this] False show ?thesis by (simp add: off_def)
    qed
    have le_off: "liveEnd ?hs ?es \<le> unat off"
      using tail by (cases "?es = []") (simp_all add: off)
    have off_B: "unat off \<le> B"
      using tail hB by (cases "?es = []") (simp_all add: off)
    have fin': "fin entry' = unat off + unat (fileSize entry)"
      by (simp add: fin_def e')
    with off_B sz B have bound: "fin entry' \<le> B + 2 ^ 32" "fin entry' < 2 ^ 64" by simp_all
    have "packed ?hs (?es @ [entry'])"
      using p live' le_off bound(2) by (simp add: packed_append e')
    moreover have "liveEnd ?hs (?es @ [entry']) = fin entry'"
      using live' by (simp add: liveEnd_append)
    ultimately show ?thesis using s' bound by simp
  qed
qed

subsection \<open>Tombstones and compaction\<close>

lemma deleted_tombstone [simp]: "deleted (tombstone e)"
proof -
  have "(x OR 1) AND 1 = (1 :: u32)" for x :: u32
    by (simp add: bit_eq_iff bit_simps) 
  then show ?thesis by (simp add: deleted_def tombstone_def FILE_FLAG_DELETED_def)
qed

lemma fin_tombstone [simp]: "fin (tombstone e) = fin e"
  by (simp add: fin_def tombstone_def)

lemma byteOffset_tombstone [simp]: "byteOffset (tombstone e) = byteOffset e"
  by (simp add: tombstone_def)

lemma packed_tombstone:
  "packed a es \<Longrightarrow> packed a (es[i := tombstone (es ! i)])"
proof (induction es arbitrary: a i)
  case (Cons e es)
  show ?case
  proof (cases i)
    case 0
    from Cons.prems have "packed a es"
      using off_le_fin [of e] by (auto split: if_splits intro: packed_mono [of "fin e"])
    with 0 show ?thesis by simp
  next
    case (Suc j)
    with Cons show ?thesis by (auto split: if_splits)
  qed
qed simp

lemma liveEnd_tombstone:
  "packed a es \<Longrightarrow> liveEnd a (es[i := tombstone (es ! i)]) \<le> liveEnd a es"
proof (induction es arbitrary: a i)
  case (Cons e es)
  show ?case
  proof (cases i)
    case 0
    show ?thesis
    proof (cases "deleted e")
      case True
      with 0 show ?thesis by simp
    next
      case False
      with Cons.prems have "a \<le> fin e" using off_le_fin [of e] by simp
      from liveEnd_mono [OF this] 0 False show ?thesis by simp
    qed
  next
    case (Suc j)
    with Cons show ?thesis by (auto split: if_splits)
  qed
qed simp

lemma fin_last_tombstone:
  "es \<noteq> [] \<Longrightarrow> fin (last (es[i := tombstone (es ! i)])) = fin (last es)"
  by (cases "i = length es - 1") (simp_all add: last_conv_nth nth_list_update)

lemma flush_loop_filter:
  "length ns = length es \<Longrightarrow>
     fst (flush_loop es ns) = filter (\<lambda>e. \<not> deleted e) es
     \<and> length (snd (flush_loop es ns)) = length (fst (flush_loop es ns))"
proof (induction es ns rule: flush_loop.induct)
  case (1 entry es name ns)
  then show ?case by (auto split: prod.splits)
qed simp_all

lemma packed_filter: "packed a (filter (\<lambda>e. \<not> deleted e) es) \<longleftrightarrow> packed a es"
  by (induction es arbitrary: a) auto

lemma liveEnd_filter: "liveEnd a (filter (\<lambda>e. \<not> deleted e) es) = liveEnd a es"
  by (induction es arbitrary: a) auto

lemma packed_live_chained: "packed a es \<Longrightarrow> \<forall>e \<in> set es. \<not> deleted e \<Longrightarrow> chained a es"
  by (induction es arbitrary: a) auto

lemma liveEnd_live_last: "es \<noteq> [] \<Longrightarrow> \<not> deleted (last es) \<Longrightarrow> liveEnd a es = fin (last es)"
  by (induction es arbitrary: a) (auto split: if_splits)

lemma filter_layout:
  assumes p: "packed a es"
    and tail: "es = [] \<or> (liveEnd a es \<le> fin (last es) \<and> fin (last es) \<le> B)"
  shows "chained a (filter (\<lambda>e. \<not> deleted e) es)
    \<and> (filter (\<lambda>e. \<not> deleted e) es = []
       \<or> (liveEnd a (filter (\<lambda>e. \<not> deleted e) es) \<le> fin (last (filter (\<lambda>e. \<not> deleted e) es))
          \<and> fin (last (filter (\<lambda>e. \<not> deleted e) es)) \<le> B))"
proof -
  let ?fs = "filter (\<lambda>e. \<not> deleted e) es"
  have c: "chained a ?fs"
    using p by (intro packed_live_chained) (simp_all add: packed_filter)
  moreover have "liveEnd a ?fs \<le> fin (last ?fs) \<and> fin (last ?fs) \<le> B" if ne: "?fs \<noteq> []"
  proof -
    from ne have l: "last ?fs \<in> set ?fs" by (rule last_in_set)
    then have live: "\<not> deleted (last ?fs)" and mem: "last ?fs \<in> set es" by simp_all
    from liveEnd_live_last [OF ne live] have e: "liveEnd a ?fs = fin (last ?fs)" .
    from ne have "es \<noteq> []" by auto
    with tail have "liveEnd a es \<le> B" by simp
    with e show ?thesis by (simp add: liveEnd_filter)
  qed
  ultimately show ?thesis by blast
qed

lemma defrag_loop_chained:
  "chained q es \<Longrightarrow> unat pos \<le> q \<Longrightarrow> defrag_loop es pos = Inr (es', endPos) \<Longrightarrow>
     chained (unat pos) es' \<and> length es' = length es
     \<and> (es \<noteq> [] \<longrightarrow> fin (last es') \<le> fin (last es))"
proof (induction es arbitrary: q pos es')
  case Nil
  then show ?case by simp
next
  case (Cons e es)
  from Cons.prems(3) obtain es'' where
    r: "defrag_loop es (pos + ucast (fileSize e)) = Inr (es'', endPos)"
    and es': "es' = e\<lparr>byteOffset := pos\<rparr> # es''"
    by (auto split: if_splits sum.splits)
  let ?n = "e\<lparr>byteOffset := pos\<rparr>"
  from Cons.prems(1) have q: "q \<le> unat (byteOffset e)" and f: "fin e < 2 ^ 64"
    and c: "chained (fin e) es" by simp_all
  have fn: "fin ?n = unat pos + unat (fileSize e)" by (simp add: fin_def)
  with q Cons.prems(2) have le: "fin ?n \<le> fin e" by (simp add: fin_def)
  with f have fn64: "fin ?n < 2 ^ 64" by simp
  from unat_end [OF fn64] have pos': "unat (pos + ucast (fileSize e)) = fin ?n" by simp
  from Cons.IH [OF c _ r] le pos' have IH: "chained (fin ?n) es''" "length es'' = length es"
    "es \<noteq> [] \<longrightarrow> fin (last es'') \<le> fin (last es)" by simp_all
  have "fin (last es') \<le> fin (last (e # es))"
  proof (cases "es = []")
    case True
    with IH(2) have "es'' = []" by simp
    with True le show ?thesis by (simp add: es')
  next
    case False
    with IH(2) have "es'' \<noteq> []" by auto
    with False IH(3) show ?thesis by (simp add: es')
  qed
  with IH fn64 show ?case by (simp add: es')
qed

lemma defrag_loop_deleted:
  "defrag_loop es pos = Inr (es', endPos) \<Longrightarrow> map deleted es' = map deleted es"
proof (induction es arbitrary: pos es')
  case (Cons e es)
  then show ?case by (auto simp: deleted_def split: if_splits sum.splits)
qed simp

subsection \<open>The invariant after open\<close>

lemma readFileEntries_loop_chained:
  "readFileEntries_loop a h i nextOffset es0 = (True, es) \<Longrightarrow>
    \<forall>j < unat (fileCount h). fin (storedEntry a j) < 2 ^ 64 \<Longrightarrow>
    i \<le> unat (fileCount h) \<Longrightarrow> length es0 = unat (fileCount h) \<Longrightarrow>
    length es = unat (fileCount h) \<and> take i es = take i es0
    \<and> drop i es = map (storedEntry a) [i..<unat (fileCount h)]
    \<and> chained (unat nextOffset) (drop i es)"
proof (induction a h i nextOffset es0 rule: readFileEntries_loop.induct)
  case (1 a h i nextOffset es0)
  let ?n = "unat (fileCount h)"
  let ?e = "storedEntry a i"
  show ?case
  proof (cases "i < ?n")
    case False
    with "1.prems" show ?thesis
      by (subst (asm) readFileEntries_loop.simps) simp
  next
    case True
    from "1.prems"(1) True have c1: "\<not> fileEntryOffset h \<le> nextOffset"
      and c2: "\<not> byteOffset ?e < nextOffset"
      and r: "readFileEntries_loop a h (i + 1) (byteOffset ?e + ucast (fileSize ?e)) (es0[i := ?e])
               = (True, es)"
      by (subst (asm) readFileEntries_loop.simps, simp split: if_splits)+
    from True have i1: "i + 1 \<le> ?n" by simp
    from "1.prems"(4) have len: "length (es0[i := ?e]) = ?n" by simp
    from "1.IH" [OF True c1 c2 r "1.prems"(2) i1 len]
    have IH: "length es = ?n" "take (i + 1) es = take (i + 1) (es0[i := ?e])"
      "drop (i + 1) es = map (storedEntry a) [i + 1..<?n]"
      "chained (unat (byteOffset ?e + ucast (fileSize ?e))) (drop (i + 1) es)"
      by blast+
    from "1.prems"(2) True have f: "fin ?e < 2 ^ 64" by simp
    have nth: "es ! i = ?e"
    proof -
      have "es ! i = take (i + 1) es ! i" by simp
      also have "\<dots> = take (i + 1) (es0[i := ?e]) ! i" by (simp only: IH(2))
      also have "\<dots> = ?e" using True "1.prems"(4) by simp
      finally show ?thesis .
    qed
    have d: "drop i es = ?e # drop (i + 1) es"
      using True IH(1) nth by (simp add: Cons_nth_drop_Suc [symmetric])
    have t: "take i es = take i es0"
    proof -
      have "take i es = take i (take (i + 1) es)" by (simp add: min_def)
      also have "\<dots> = take i (take (i + 1) (es0[i := ?e]))" by (simp only: IH(2))
      also have "\<dots> = take i es0" by (simp add: min_def)
      finally show ?thesis .
    qed
    from c2 have "unat nextOffset \<le> unat (byteOffset ?e)" by (simp add: word_le_nat_alt not_less)
    with IH(4) f have "chained (unat nextOffset) (drop i es)"
      by (simp add: d unat_end)
    moreover have "drop i es = map (storedEntry a) [i..<?n]"
      using True IH(3) by (simp add: d upt_conv_Cons)
    ultimately show ?thesis using IH(1) t by simp
  qed
qed

lemma readFileEntries_chained:
  assumes "readFileEntries a s = (True, s')"
    and "\<forall>j < unat (fileCount (m_header s)). fin (storedEntry a j) \<le> B" and "B < 2 ^ 64"
  shows "chained (unat (headerSize (m_header s))) (m_fileEntries s')
    \<and> (\<forall>e \<in> set (m_fileEntries s'). fin e \<le> B)
    \<and> length (m_fileEntries s') = unat (fileCount (m_header s))"
proof -
  let ?n = "unat (fileCount (m_header s))"
  from assms(1) obtain es where
    r: "readFileEntries_loop a (m_header s) 0 (ucast (headerSize (m_header s)))
          (replicate ?n zeroEntry) = (True, es)"
    and s': "m_fileEntries s' = es"
    by (auto simp: readFileEntries_def split: prod.splits)
  from assms(2,3) have "\<forall>j < ?n. fin (storedEntry a j) < 2 ^ 64" by auto
  from readFileEntries_loop_chained [OF r this] have
    "chained (unat (ucast (headerSize (m_header s)) :: u64)) (drop 0 es)"
    "drop 0 es = map (storedEntry a) [0..<?n]" "length es = ?n"
    by (simp only: le0 length_replicate)+
  then have "chained (unat (headerSize (m_header s))) es" "es = map (storedEntry a) [0..<?n]"
    "length es = ?n"
    by (simp_all only: drop_0 unat_ucast_size)
  with assms(2) s' show ?thesis by auto
qed

lemma openPackage_valid:
  assumes "openPackage A (Some a) readonly = Some (Inr s)" "valid s"
  shows "\<exists>s1 s2 s3 built. readHeader A a (newPackage readonly True) = (True, s1)
    \<and> readFileEntries a s1 = (True, s2) \<and> readFilenames a s2 = (True, s3)
    \<and> buildHashTable s3 = Some (Inr (built, s))"
proof -
  obtain ok1 s1 where r1: "readHeader A a (newPackage readonly True) = (ok1, s1)" by force
  obtain ok2 s2 where r2: "readFileEntries a s1 = (ok2, s2)" by force
  obtain ok3 s3 where r3: "readFilenames a s2 = (ok3, s3)" by force
  from readFilenames_frame [OF r3] have ok3: ok3 by simp
  have ok1: ok1
  proof (rule ccontr)
    assume "\<not> ok1"
    with assms(1) r1 have "s = s1\<lparr>m_isOpen := False\<rparr>" by (simp add: openPackage_def)
    with assms(2) show False by (simp add: valid_def)
  qed
  have ok2: ok2
  proof (rule ccontr)
    assume "\<not> ok2"
    with assms(1) r1 r2 ok1 have "s = s2\<lparr>m_isOpen := False\<rparr>" by (simp add: openPackage_def)
    with assms(2) show False by (simp add: valid_def)
  qed
  from assms(1) r1 r2 r3 ok1 ok2 ok3 obtain built where "buildHashTable s3 = Some (Inr (built, s))"
    by (auto simp: openPackage_def split: option.splits sum.splits)
  with r1 r2 r3 ok1 ok2 ok3 show ?thesis by auto
qed

lemma readHeader_header:
  "readHeader A a s = (True, s') \<Longrightarrow> m_header s' = storedHeader a"
  by (auto simp: readHeader_def Let_def split: if_splits)

lemma openPackage_layout:
  assumes o: "openPackage A (Some a) readonly = Some (Inr s)" "valid s"
    and hsz: "unat (headerSize (storedHeader a)) = sizeof_PackageHeader A"
    and hB: "unat (headerSize (storedHeader a)) \<le> B"
    and fB: "\<forall>j < unat (fileCount (storedHeader a)). fin (storedEntry a j) \<le> B"
    and B: "B < 2 ^ 64"
  shows "layoutOk A B s"
proof -
  from openPackage_valid [OF o] obtain s1 s2 s3 built where
    r1: "readHeader A a (newPackage readonly True) = (True, s1)"
    and r2: "readFileEntries a s1 = (True, s2)" and r3: "readFilenames a s2 = (True, s3)"
    and b: "buildHashTable s3 = Some (Inr (built, s))" by blast
  from readHeader_header [OF r1] have h1: "m_header s1 = storedHeader a" .
  from readHeader_frame [OF r1] have d1: "\<not> m_dirty s1" by (simp add: newPackage_def)
  from readFileEntries_chained [OF r2 _ B] fB h1
  have c: "chained (unat (headerSize (storedHeader a))) (m_fileEntries s2)"
    and f: "\<forall>e \<in> set (m_fileEntries s2). fin e \<le> B" by simp_all
  from readFileEntries_frame [OF r2] readFilenames_frame [OF r3] buildHashTable_frame [OF b] h1 d1
  have s: "m_header s = storedHeader a" "m_fileEntries s = m_fileEntries s2" "\<not> m_dirty s"
    by simp_all
  let ?hs = "unat (headerSize (storedHeader a))"
  let ?es = "m_fileEntries s2"
  have "liveEnd ?hs ?es \<le> fin (last ?es) \<and> fin (last ?es) \<le> B" if ne: "?es \<noteq> []"
  proof -
    from chained_last [OF c ne] have l: "?hs \<le> fin (last ?es)" "\<forall>e \<in> set ?es. fin e \<le> fin (last ?es)"
      by simp_all
    from liveEnd_cases [of ?hs ?es] l have "liveEnd ?hs ?es \<le> fin (last ?es)" by auto
    moreover from f ne have "fin (last ?es) \<le> B" by simp
    ultimately show ?thesis by simp
  qed
  with c chained_packed [OF c] hsz hB show ?thesis
    unfolding layoutOk_def s by blast
qed

subsection \<open>The invariant through every call\<close>

lemma stateOf_Inr: "stateOf r = Some (Inr s') \<longleftrightarrow> (\<exists>b. r = Some (Inr (b, s')))"
  by (cases r) (auto simp: stateOf_def map_sum_def split: sum.splits)

lemma removeFile_cases:
  assumes "removeFile A s filename = Some (Inr (b, s'))"
  shows "s' = s \<or> (\<exists>i. getFileIndex s filename = Some (Inr (int i)) \<and> b \<and> \<not> m_readonly s
     \<and> s' = s\<lparr>m_fileEntries := (m_fileEntries s)[i := tombstone (m_fileEntries s ! i)],
            m_header := recountNames A ((m_header s)\<lparr>fileCount := fileCount (m_header s) - 1\<rparr>),
            m_dirty := True\<rparr>)"
proof (cases "m_readonly s")
  case True
  with assms show ?thesis by (simp add: removeFile_def)
next
  case False
  with assms obtain fileIndex where g: "getFileIndex s filename = Some (Inr fileIndex)"
    by (auto simp: removeFile_def split: option.splits sum.splits)
  show ?thesis
  proof (cases "fileIndex < 0")
    case True
    with assms False g show ?thesis by (simp add: removeFile_def)
  next
    case nonneg: False
    then have "fileIndex = int (nat fileIndex)" by simp
    with assms False g nonneg show ?thesis
      by (intro disjI2 exI [of _ "nat fileIndex"]) (auto simp: removeFile_def tombstone_def)
  qed
qed

lemma headerSize_recountNames [simp]: "headerSize (recountNames A h) = headerSize h"
  by (simp add: recountNames_def)

lemma removeFile_layout:
  assumes "layoutOk A B s" "removeFile A s filename = Some (Inr (b, s'))"
  shows "layoutOk A B s'"
proof -
  from removeFile_cases [OF assms(2)] show ?thesis
  proof
    assume "s' = s"
    with assms(1) show ?thesis by simp
  next
    assume "\<exists>i. getFileIndex s filename = Some (Inr (int i)) \<and> b \<and> \<not> m_readonly s
     \<and> s' = s\<lparr>m_fileEntries := (m_fileEntries s)[i := tombstone (m_fileEntries s ! i)],
            m_header := recountNames A ((m_header s)\<lparr>fileCount := fileCount (m_header s) - 1\<rparr>),
            m_dirty := True\<rparr>"
    then obtain i where s': "s' = s\<lparr>m_fileEntries := (m_fileEntries s)[i := tombstone (m_fileEntries s ! i)],
            m_header := recountNames A ((m_header s)\<lparr>fileCount := fileCount (m_header s) - 1\<rparr>),
            m_dirty := True\<rparr>" by blast
    let ?hs = "unat (headerSize (m_header s))"
    let ?es = "m_fileEntries s"
    let ?es' = "?es[i := tombstone (?es ! i)]"
    from assms(1) have p: "packed ?hs ?es"
      and tail: "?es = [] \<or> (liveEnd ?hs ?es \<le> fin (last ?es) \<and> fin (last ?es) \<le> B)"
      and h: "?hs = sizeof_PackageHeader A" "?hs \<le> B"
      unfolding layoutOk_def by blast+
    have "packed ?hs ?es'" using p by (rule packed_tombstone)
    moreover have "?es' = [] \<or> (liveEnd ?hs ?es' \<le> fin (last ?es') \<and> fin (last ?es') \<le> B)"
    proof (cases "?es = []")
      case True
      then show ?thesis by simp
    next
      case False
      with tail liveEnd_tombstone [OF p, of i] fin_last_tombstone [OF False, of i]
      show ?thesis by simp
    qed
    ultimately show ?thesis using h by (simp add: layoutOk_def s')
  qed
qed

lemma addFile_insert_layout:
  assumes "layoutOk A B s" "B + 2 ^ 32 < 2 ^ 64"
    and "addFile_insert A s n filename = Some (Inr (b, s'))"
  shows "layoutOk A (B + 2 ^ 32) s'"
proof -
  let ?entry = "\<lparr>hash0 = stringHash filename HASH_SEED0, hash1 = stringHash filename HASH_SEED1,
                 hash2 = stringHash filename HASH_SEED2, byteOffset = 0, fileSize = of_nat n,
                 flag = 0\<rparr>"
  from assms(3) obtain entry' t where i: "insertFile A s ?entry filename = Inr (entry', t)"
    and s': "s' = t\<lparr>m_header := recountNames A ((m_header t)\<lparr>fileCount := fileCount (m_header t) + 1\<rparr>),
                  m_dirty := True\<rparr>"
    by (auto simp: addFile_insert_def Let_def split: sum.splits)
  have "\<not> deleted ?entry" by (simp add: deleted_def)
  from insertFile_layout [OF assms(1,2) this i] assms(1) show ?thesis
    by (simp add: layoutOk_def s')
qed

lemma addFile_layout:
  assumes "layoutOk A B s" "B + 2 ^ 32 < 2 ^ 64"
    and "addFile A s externalFile filename flg = Some (Inr (b, s'))"
  shows "layoutOk A (B + 2 ^ 32) s'"
proof -
  have keep: "layoutOk A (B + 2 ^ 32) s" using assms(1) by (rule layoutOk_mono) simp
  show ?thesis
  proof (cases "m_readonly s \<or> externalFile = None")
    case True
    with assms(3) have "s' = s" by (auto simp: addFile_def split: if_splits)
    with keep show ?thesis by simp
  next
    case False
    then obtain n where n: "externalFile = Some n" and rw: "\<not> m_readonly s" by auto
    with assms(3) obtain fileIndex where g: "getFileIndex s filename = Some (Inr fileIndex)"
      by (auto simp: addFile_def split: option.splits sum.splits)
    show ?thesis
    proof (cases "fileIndex \<ge> 0")
      case False
      with assms(3) n rw g have "addFile_insert A s n filename = Some (Inr (b, s'))"
        by (simp add: addFile_def)
      from addFile_insert_layout [OF assms(1,2) this] show ?thesis .
    next
      case True
      show ?thesis
      proof (cases "flg AND FLAG_REPLACE = 0")
        case True
        with assms(3) n rw g \<open>fileIndex \<ge> 0\<close> have "s' = s" by (simp add: addFile_def)
        with keep show ?thesis by simp
      next
        case False
        with assms(3) n rw g True obtain removed s1 where
          r: "removeFile A s filename = Some (Inr (removed, s1))"
          and a: "addFile_insert A s1 n filename = Some (Inr (b, s'))"
          by (auto simp: addFile_def split: option.splits sum.splits)
        from removeFile_layout [OF assms(1) r] have "layoutOk A B s1" .
        from addFile_insert_layout [OF this assms(2) a] show ?thesis .
      qed
    qed
  qed
qed

lemma flush_cases:
  assumes "flush s = Some (Inr s')"
  shows "(s' = s \<and> (m_readonly s \<or> \<not> m_dirty s))
    \<or> (\<not> m_readonly s \<and> m_dirty s \<and> length (m_filenames s) = length (m_fileEntries s)
       \<and> (\<exists>built t. buildHashTable (compacted s) = Some (Inr (built, t))
            \<and> s' = t\<lparr>m_dirty := False\<rparr>))"
proof (cases "m_readonly s \<or> \<not> m_dirty s")
  case True
  with assms show ?thesis by (auto simp: flush_def)
next
  case False
  with assms have len: "length (m_filenames s) = length (m_fileEntries s)"
    by (auto simp: flush_def split: if_splits)
  obtain es ns where l: "flush_loop (m_fileEntries s) (m_filenames s) = (es, ns)" by force
  with assms False len obtain built t where
    "buildHashTable (s\<lparr>m_fileEntries := es, m_filenames := ns,
        m_header := (m_header s)\<lparr>filenameSize := namesSize ns\<rparr>\<rparr>) = Some (Inr (built, t))"
    "s' = t\<lparr>m_dirty := False\<rparr>"
    by (auto simp: flush_def split: if_splits option.splits sum.splits)
  with l False len show ?thesis by (auto simp: compacted_def)
qed

lemma layoutOk_eq:
  "headerSize (m_header s') = headerSize (m_header s) \<Longrightarrow> m_fileEntries s' = m_fileEntries s \<Longrightarrow>
     m_dirty s' = m_dirty s \<Longrightarrow> layoutOk A B s' = layoutOk A B s"
  by (simp add: layoutOk_def)

lemma flush_layout:
  assumes "layoutOk A B s" "flush s = Some (Inr s')"
  shows "layoutOk A B s'"
proof -
  from flush_cases [OF assms(2)] consider "s' = s"
    | built t where "length (m_filenames s) = length (m_fileEntries s)"
        "buildHashTable (compacted s) = Some (Inr (built, t))" "s' = t\<lparr>m_dirty := False\<rparr>"
    by blast
  then show ?thesis
  proof cases
    case 1
    with assms(1) show ?thesis by simp
  next
    case (2 built t)
    note len = 2(1) and b = 2(2) and s' = 2(3)
    let ?hs = "unat (headerSize (m_header s))"
    let ?es = "m_fileEntries s"
    let ?fs = "filter (\<lambda>e. \<not> deleted e) ?es"
    from flush_loop_filter [OF len] have fs: "m_fileEntries (compacted s) = ?fs"
      by (simp add: compacted_def)
    from buildHashTable_frame [OF b] fs have t: "m_fileEntries s' = ?fs"
      "headerSize (m_header s') = headerSize (m_header s)" "\<not> m_dirty s'"
      by (simp_all add: s' compacted_def)
    from assms(1) have p: "packed ?hs ?es"
      and tail: "?es = [] \<or> (liveEnd ?hs ?es \<le> fin (last ?es) \<and> fin (last ?es) \<le> B)"
      and h: "?hs = sizeof_PackageHeader A" "?hs \<le> B"
      unfolding layoutOk_def by blast+
    from filter_layout [OF p tail] chained_packed [of ?hs ?fs] h show ?thesis
      unfolding layoutOk_def t by blast
  qed
qed

lemma defrag_layout:
  assumes "layoutOk A B s" "defrag A s fopenOk reopenOk = Some (Inr (b, s'))"
  shows "layoutOk A B s'"
proof (cases "m_readonly s \<or> m_dirty s")
  case True
  with assms(2) have "s' = s" by (auto simp: defrag_def)
  with assms(1) show ?thesis by simp
next
  case False
  let ?hs = "unat (headerSize (m_header s))"
  let ?es = "m_fileEntries s"
  from assms(2) False obtain es' nextPos where
    d: "defrag_loop ?es (ucast (headerSize (m_header s))) = Inr (es', nextPos)"
    by (auto simp: defrag_def split: sum.splits)
  define t where "t = s\<lparr>m_fileEntries := es',
     m_header := recountNames A ((m_header s)\<lparr>fileEntryOffset := nextPos\<rparr>), m_dirty := True\<rparr>"
  from assms(2) False d obtain s'' where f: "flush t = Some (Inr s'')"
    and s': "s' = s''\<lparr>m_isOpen := m_isOpen s'\<rparr>"
    by (auto simp: defrag_def t_def split: option.splits sum.splits if_splits)
  from assms(1) False have c: "chained ?hs ?es"
    and tail: "?es = [] \<or> (liveEnd ?hs ?es \<le> fin (last ?es) \<and> fin (last ?es) \<le> B)"
    and h: "?hs = sizeof_PackageHeader A" "?hs \<le> B"
    unfolding layoutOk_def by blast+
  have "unat (ucast (headerSize (m_header s)) :: u64) \<le> ?hs" by simp
  from defrag_loop_chained [OF c this d] have c': "chained ?hs es'" and len: "length es' = length ?es"
    and l: "?es \<noteq> [] \<longrightarrow> fin (last es') \<le> fin (last ?es)" by simp_all
  have "liveEnd ?hs es' \<le> fin (last es') \<and> fin (last es') \<le> B" if ne: "es' \<noteq> []"
  proof -
    from ne len have "?es \<noteq> []" by auto
    with tail l have "fin (last es') \<le> B" by simp
    moreover from chained_last [OF c' ne] liveEnd_cases [of ?hs es']
    have "liveEnd ?hs es' \<le> fin (last es')" by auto
    ultimately show ?thesis by simp
  qed
  with chained_packed [OF c'] h have "layoutOk A B t"
    unfolding layoutOk_def t_def by auto
  from flush_layout [OF this f] have "layoutOk A B s''" .
  moreover have "layoutOk A B (s''\<lparr>m_isOpen := m_isOpen s'\<rparr>) = layoutOk A B s''"
    by (rule layoutOk_eq) simp_all
  ultimately show ?thesis using s' by simp
qed

lemma perform_layout:
  assumes "layoutOk A B s" "B + 2 ^ 32 < 2 ^ 64" "perform A s operation = Some (Inr s')"
  shows "layoutOk A (B + 2 ^ 32) s'"
proof (cases operation)
  case (AddFile externalFile filename flg)
  with assms(3) obtain b where "addFile A s externalFile filename flg = Some (Inr (b, s'))"
    by (auto simp: stateOf_Inr)
  from addFile_layout [OF assms(1,2) this] show ?thesis .
next
  case (RemoveFile filename)
  with assms(3) obtain b where "removeFile A s filename = Some (Inr (b, s'))"
    by (auto simp: stateOf_Inr)
  from removeFile_layout [OF assms(1) this] show ?thesis by (rule layoutOk_mono) simp
next
  case Flush
  with assms(3) have "flush s = Some (Inr s')" by simp
  from flush_layout [OF assms(1) this] show ?thesis by (rule layoutOk_mono) simp
next
  case (Defrag fopenOk reopenOk)
  with assms(3) obtain b where "defrag A s fopenOk reopenOk = Some (Inr (b, s'))"
    by (auto simp: stateOf_Inr)
  from defrag_layout [OF assms(1) this] show ?thesis by (rule layoutOk_mono) simp
qed

lemma run_layout:
  "layoutOk A B s \<Longrightarrow> B + 2 ^ 32 * length ops < 2 ^ 64 \<Longrightarrow> run A s ops = Some (Inr s') \<Longrightarrow>
     layoutOk A (B + 2 ^ 32 * length ops) s'"
proof (induction ops arbitrary: s B)
  case Nil
  then show ?case by simp
next
  case (Cons operation ops)
  from Cons.prems(3) obtain s1 where p: "perform A s operation = Some (Inr s1)"
    and r: "run A s1 ops = Some (Inr s')"
    by (auto split: option.splits sum.splits)
  from Cons.prems(2) have B: "B + 2 ^ 32 < 2 ^ 64" "(B + 2 ^ 32) + 2 ^ 32 * length ops < 2 ^ 64"
    by simp_all
  from perform_layout [OF Cons.prems(1) B(1) p] have "layoutOk A (B + 2 ^ 32) s1" .
  from Cons.IH [OF this B(2) r] show ?case by (simp add: ac_simps)
qed

lemma layoutOk_sorted:
  assumes "layoutOk A B s"
  shows "sorted (map byteOffset (filter (\<lambda>e. \<not> deleted e) (m_fileEntries s)))
    \<and> (m_dirty s \<or> sorted (map byteOffset (m_fileEntries s)))"
  using assms packed_sorted chained_sorted unfolding layoutOk_def by blast

section \<open>Evaluation of the examples\<close>

lemma stringHash_single: "stringHash [c] seed = charValue c"
  by (simp add: stringHash_def)

lemmas hash_eval =
  stringHash_single charValue_def tolower_def HASH_SEED0_def HASH_SEED1_def HASH_SEED2_def

lemma replicate_3: "replicate 3 x = [x, x, x]"
  by (simp add: numeral_3_eq_3)

lemma upt_0_3: "[0..<3] = [0, 1, 2]"
  by (simp add: upt_rec)

lemma length_3: "length [x, y, z] = 3"
  by simp

lemma readHeader_gapArchive:
  "readHeader exampleAbi gapArchive (newPackage False True) =
     (True, (newPackage False True)\<lparr>m_header := headerOf 40 3 100\<rparr>)"
  by (simp add: readHeader_def gapArchive_def exampleAbi_def headerOf_def newPackage_def Let_def)

lemma readFileEntries_gapArchive:
  "readFileEntries gapArchive ((newPackage False True)\<lparr>m_header := headerOf 40 3 100\<rparr>) =
     (True, (newPackage False True)\<lparr>m_header := headerOf 40 3 100,
        m_fileEntries := [entryOf ''a'' 40 10 0, entryOf ''c'' 80 10 0, entryOf ''d'' 90 10 0]\<rparr>)"
  by (simp add: readFileEntries_def readFileEntries_loop.simps gapArchive_def headerOf_def
      entryOf_def newPackage_def replicate_3)

lemma readFilenames_gapArchive:
  "readFilenames gapArchive ((newPackage False True)\<lparr>m_header := headerOf 40 3 100,
        m_fileEntries := [entryOf ''a'' 40 10 0, entryOf ''c'' 80 10 0, entryOf ''d'' 90 10 0]\<rparr>) =
     (True, (newPackage False True)\<lparr>m_header := headerOf 40 3 100,
        m_fileEntries := [entryOf ''a'' 40 10 0, entryOf ''c'' 80 10 0, entryOf ''d'' 90 10 0],
        m_filenames := [''a'', ''c'', ''d'']\<rparr>)"
  by (simp add: readFilenames_def gapArchive_def newPackage_def length_3 upt_0_3 del: length_Cons)

lemma buildHashTable_gapArchive:
  "buildHashTable ((newPackage False True)\<lparr>m_header := headerOf 40 3 100,
        m_fileEntries := [entryOf ''a'' 40 10 0, entryOf ''c'' 80 10 0, entryOf ''d'' 90 10 0],
        m_filenames := [''a'', ''c'', ''d'']\<rparr>) = Some (Inr (True, gapOpened))"
  by (simp add: buildHashTable_def fillTable.simps freeSlot.simps tableSize_loop.simps
      gapOpened_def headerOf_def entryOf_def newPackage_def MIN_HASH_TABLE_SIZE_def hash_eval)

lemma openPackage_gapArchive: "openPackage exampleAbi (Some gapArchive) False = Some (Inr gapOpened)"
  by (simp add: openPackage_def readHeader_gapArchive readFileEntries_gapArchive
      readFilenames_gapArchive buildHashTable_gapArchive)

lemmas op_eval =
  stateOf_def removeFile_def addFile_def addFile_insert_def insertFile_def getFileIndex_def
  probe.simps flush_def buildHashTable_def fillTable.simps freeSlot.simps tableSize_loop.simps
  fixHashTable_def insertAt_def recountNames_def namesSize_def hashMatch_def deleted_def
  FILE_FLAG_DELETED_def FLAG_REPLACE_def MIN_HASH_TABLE_SIZE_def Let_def
  headerOf_def entryOf_def exampleAbi_def hash_eval

lemma run_gap_splice:
  "(case run exampleAbi gapOpened [RemoveFile ''c'', AddFile (Some 20) ''n'' 0] of
      Some (Inr s) \<Rightarrow>
        map byteOffset (m_fileEntries s) = [40, 80, 50, 90]
        \<and> map deleted (m_fileEntries s) = [False, True, False, False]
        \<and> m_dirty s
    | _ \<Rightarrow> False)"
  by (simp add: gapOpened_def op_eval)

lemma run_gap_flush:
  "run exampleAbi gapOpened [RemoveFile ''c'', AddFile (Some 20) ''n'' 0, Flush] =
     Some (Inr gapFlushed)"
  by (simp add: gapOpened_def gapFlushed_def op_eval)

lemma openPackage_tallArchive:
  "openPackage exampleAbi (Some tallArchive) False = Some (Inr tallOpened)"
  by (simp add: openPackage_def readHeader_def readFileEntries_def readFilenames_def
      readFileEntries_loop.simps buildHashTable_def fillTable.simps tableSize_loop.simps
      tallArchive_def tallOpened_def exampleAbi_def headerOf_def newPackage_def Let_def
      MIN_HASH_TABLE_SIZE_def)

lemma run_tall:
  "(case run exampleAbi tallOpened [AddFile (Some 200) ''a'' 0, AddFile (Some 10) ''b'' 0] of
      Some (Inr s) \<Rightarrow>
        m_fileEntries s = [entryOf ''b'' 48 10 0, entryOf ''a'' 40 200 0]
    | _ \<Rightarrow> False)"
  by (simp add: tallOpened_def op_eval)

section \<open>The name table\<close>

text \<open>Every call keeps the name table aligned with the entry table.\<close>

lemma nameMatch_hashes:
  "hash0 e' = hash0 e \<Longrightarrow> hash1 e' = hash1 e \<Longrightarrow> hash2 e' = hash2 e \<Longrightarrow>
     nameMatch e' n = nameMatch e n"
  by (simp add: nameMatch_def hashMatch_def)

lemma nameMatch_tombstone [simp]: "nameMatch (tombstone e) n = nameMatch e n"
  by (rule nameMatch_hashes) (simp_all add: tombstone_def)

lemma list_all2_insertAt:
  "list_all2 P xs ys \<Longrightarrow> P x y \<Longrightarrow> list_all2 P (insertAt i x xs) (insertAt i y ys)"
  unfolding insertAt_def
  by (intro list_all2_appendI list_all2_takeI) (simp_all add: list_all2_dropI)

lemma length_insertAt: "length (insertAt i x xs) = Suc (length xs)"
  by (simp add: insertAt_def)

lemma insertFile_names:
  assumes "insertFile A s entry filename = Inr (entry', s')"
  shows "length (m_filenames s) = length (m_fileEntries s)
    \<and> length (m_filenames s') = length (m_fileEntries s')
    \<and> (nameMatch entry filename \<longrightarrow> aligned s \<longrightarrow> aligned s')"
proof (cases "insertFile_scan (m_fileEntries s) (fileSize entry) 0 (ucast (headerSize (m_header s)))")
  case None
  with assms have len: "length (m_filenames s) = length (m_fileEntries s)"
    and e': "hash0 entry' = hash0 entry" "hash1 entry' = hash1 entry" "hash2 entry' = hash2 entry"
    and s': "m_fileEntries s' = m_fileEntries s @ [entry']" "m_filenames s' = m_filenames s @ [filename]"
    by (auto simp: insertFile_def Let_def split: if_splits)
  from nameMatch_hashes [OF e'] len s' show ?thesis
    by (auto simp: aligned_def intro: list_all2_appendI)
next
  case (Some r)
  obtain i le where r: "r = (i, le)" by (cases r)
  with assms Some have len: "length (m_filenames s) = length (m_fileEntries s)"
    and e': "hash0 entry' = hash0 entry" "hash1 entry' = hash1 entry" "hash2 entry' = hash2 entry"
    and s': "m_fileEntries s' = insertAt i entry' (m_fileEntries s)"
      "m_filenames s' = insertAt i filename (m_filenames s)"
    by (auto simp: insertFile_def Let_def split: if_splits)
  from nameMatch_hashes [OF e'] len s' show ?thesis
    by (auto simp: aligned_def length_insertAt intro: list_all2_insertAt)
qed

lemma addFile_insert_names:
  assumes "addFile_insert A s n filename = Some (Inr (b, s'))"
  shows "length (m_filenames s) = length (m_fileEntries s)
    \<and> length (m_filenames s') = length (m_fileEntries s')
    \<and> (aligned s \<longrightarrow> aligned s')"
proof -
  let ?entry = "\<lparr>hash0 = stringHash filename HASH_SEED0, hash1 = stringHash filename HASH_SEED1,
                 hash2 = stringHash filename HASH_SEED2, byteOffset = 0, fileSize = of_nat n,
                 flag = 0\<rparr>"
  from assms obtain entry' t where i: "insertFile A s ?entry filename = Inr (entry', t)"
    and s': "m_fileEntries s' = m_fileEntries t" "m_filenames s' = m_filenames t"
    by (auto simp: addFile_insert_def Let_def split: sum.splits)
  have "nameMatch ?entry filename" by (simp add: nameMatch_def hashMatch_def)
  with insertFile_names [OF i] s' show ?thesis by (simp add: aligned_def)
qed

lemma removeFile_names:
  assumes "removeFile A s filename = Some (Inr (b, s'))"
  shows "length (m_fileEntries s') = length (m_fileEntries s) \<and> m_filenames s' = m_filenames s
    \<and> (aligned s \<longrightarrow> aligned s')"
proof -
  from removeFile_cases [OF assms] show ?thesis
  proof (elim disjE exE conjE)
    assume "s' = s"
    then show ?thesis by simp
  next
    fix i
    assume s': "s' = s\<lparr>m_fileEntries := (m_fileEntries s)[i := tombstone (m_fileEntries s ! i)],
        m_header := recountNames A ((m_header s)\<lparr>fileCount := fileCount (m_header s) - 1\<rparr>),
        m_dirty := True\<rparr>"
    have "list_all2 nameMatch ((m_fileEntries s)[i := tombstone (m_fileEntries s ! i)]) (m_filenames s)"
      if a: "list_all2 nameMatch (m_fileEntries s) (m_filenames s)"
    proof (cases "i < length (m_fileEntries s)")
      case True
      with a have "nameMatch (m_fileEntries s ! i) (m_filenames s ! i)"
        by (simp add: list_all2_nthD)
      with a have "list_all2 nameMatch ((m_fileEntries s)[i := tombstone (m_fileEntries s ! i)])
          ((m_filenames s)[i := m_filenames s ! i])"
        by (intro list_all2_update_cong) simp_all
      then show ?thesis by simp
    next
      case False
      then have "(m_fileEntries s)[i := tombstone (m_fileEntries s ! i)] = m_fileEntries s"
        by (intro list_update_beyond) simp
      with a show ?thesis by simp
    qed
    then show ?thesis by (simp add: s' aligned_def)
  qed
qed

lemma addFile_names:
  assumes "addFile A s externalFile filename flg = Some (Inr (b, s'))"
    and "length (m_filenames s) = length (m_fileEntries s)"
  shows "length (m_filenames s') = length (m_fileEntries s') \<and> (aligned s \<longrightarrow> aligned s')"
proof (cases "m_readonly s \<or> externalFile = None")
  case True
  with assms have "s' = s" by (auto simp: addFile_def split: if_splits)
  with assms(2) show ?thesis by simp
next
  case False
  then obtain n where n: "externalFile = Some n" and rw: "\<not> m_readonly s" by auto
  with assms(1) obtain fileIndex where g: "getFileIndex s filename = Some (Inr fileIndex)"
    by (auto simp: addFile_def split: option.splits sum.splits)
  show ?thesis
  proof (cases "fileIndex \<ge> 0")
    case False
    with assms(1) n rw g have "addFile_insert A s n filename = Some (Inr (b, s'))"
      by (simp add: addFile_def)
    from addFile_insert_names [OF this] show ?thesis by simp
  next
    case True
    show ?thesis
    proof (cases "flg AND FLAG_REPLACE = 0")
      case True
      with assms(1) n rw g \<open>fileIndex \<ge> 0\<close> have "s' = s" by (simp add: addFile_def)
      with assms(2) show ?thesis by simp
    next
      case False
      with assms(1) n rw g True obtain removed s1 where
        r: "removeFile A s filename = Some (Inr (removed, s1))"
        and a: "addFile_insert A s1 n filename = Some (Inr (b, s'))"
        by (auto simp: addFile_def split: option.splits sum.splits)
      from removeFile_names [OF r] addFile_insert_names [OF a] show ?thesis by simp
    qed
  qed
qed

lemma flush_loop_aligned:
  "list_all2 nameMatch es ns \<Longrightarrow>
     list_all2 nameMatch (fst (flush_loop es ns)) (snd (flush_loop es ns))"
proof (induction es ns rule: flush_loop.induct)
  case (1 entry es name ns)
  then show ?case by (auto split: prod.splits)
qed simp_all

lemma flush_names:
  assumes "flush s = Some (Inr s')" and "length (m_filenames s) = length (m_fileEntries s)"
  shows "length (m_filenames s') = length (m_fileEntries s') \<and> (aligned s \<longrightarrow> aligned s')"
proof -
  from flush_cases [OF assms(1)] consider "s' = s"
    | built t where "buildHashTable (compacted s) = Some (Inr (built, t))" "s' = t\<lparr>m_dirty := False\<rparr>"
    by blast
  then show ?thesis
  proof cases
    case 1
    with assms(2) show ?thesis by simp
  next
    case (2 built t)
    from buildHashTable_frame [OF 2(1)] 2(2)
    have s': "m_fileEntries s' = fst (flush_loop (m_fileEntries s) (m_filenames s))"
      "m_filenames s' = snd (flush_loop (m_fileEntries s) (m_filenames s))"
      by (simp_all add: compacted_def)
    from flush_loop_filter [OF assms(2)] flush_loop_aligned [of "m_fileEntries s" "m_filenames s"]
    show ?thesis by (simp add: s' aligned_def)
  qed
qed

lemma defrag_loop_aligned:
  "defrag_loop es pos = Inr (es', endPos) \<Longrightarrow>
     length es' = length es \<and> (list_all2 nameMatch es ns \<longrightarrow> list_all2 nameMatch es' ns)"
proof (induction es arbitrary: pos es' ns)
  case (Cons e es)
  from Cons.prems obtain es'' where
    r: "defrag_loop es (pos + ucast (fileSize e)) = Inr (es'', endPos)"
    and es': "es' = e\<lparr>byteOffset := pos\<rparr> # es''"
    by (auto split: if_splits sum.splits)
  have "nameMatch (e\<lparr>byteOffset := pos\<rparr>) n = nameMatch e n" for n
    by (rule nameMatch_hashes) simp_all
  with Cons.IH [OF r] show ?case
    by (auto simp: es' list_all2_Cons1)
qed simp

lemma defrag_names:
  assumes "defrag A s fopenOk reopenOk = Some (Inr (b, s'))"
    and "length (m_filenames s) = length (m_fileEntries s)"
  shows "length (m_filenames s') = length (m_fileEntries s') \<and> (aligned s \<longrightarrow> aligned s')"
proof (cases "m_readonly s \<or> m_dirty s")
  case True
  with assms(1) have "s' = s" by (auto simp: defrag_def)
  with assms(2) show ?thesis by simp
next
  case False
  from assms(1) False obtain es' nextPos where
    d: "defrag_loop (m_fileEntries s) (ucast (headerSize (m_header s))) = Inr (es', nextPos)"
    by (auto simp: defrag_def split: sum.splits)
  define t where "t = s\<lparr>m_fileEntries := es',
     m_header := recountNames A ((m_header s)\<lparr>fileEntryOffset := nextPos\<rparr>), m_dirty := True\<rparr>"
  from assms(1) False d obtain s'' where f: "flush t = Some (Inr s'')"
    and s': "m_fileEntries s' = m_fileEntries s''" "m_filenames s' = m_filenames s''"
    by (auto simp: defrag_def t_def split: option.splits sum.splits if_splits)
  from defrag_loop_aligned [OF d, of "m_filenames s"] assms(2)
  have t: "length (m_filenames t) = length (m_fileEntries t)" "aligned s \<longrightarrow> aligned t"
    by (simp_all add: t_def aligned_def)
  from flush_names [OF f t(1)] t(2) s' show ?thesis by (simp add: aligned_def)
qed

lemma perform_names:
  assumes "perform A s operation = Some (Inr s')"
    and "length (m_filenames s) = length (m_fileEntries s)"
  shows "length (m_filenames s') = length (m_fileEntries s') \<and> (aligned s \<longrightarrow> aligned s')"
proof (cases operation)
  case (AddFile externalFile filename flg)
  with assms(1) obtain b where "addFile A s externalFile filename flg = Some (Inr (b, s'))"
    by (auto simp: stateOf_Inr)
  from addFile_names [OF this assms(2)] show ?thesis .
next
  case (RemoveFile filename)
  with assms(1) obtain b where "removeFile A s filename = Some (Inr (b, s'))"
    by (auto simp: stateOf_Inr)
  from removeFile_names [OF this] assms(2) show ?thesis by simp
next
  case Flush
  with assms(1) have "flush s = Some (Inr s')" by simp
  from flush_names [OF this assms(2)] show ?thesis .
next
  case (Defrag fopenOk reopenOk)
  with assms(1) obtain b where "defrag A s fopenOk reopenOk = Some (Inr (b, s'))"
    by (auto simp: stateOf_Inr)
  from defrag_names [OF this assms(2)] show ?thesis .
qed

lemma run_names:
  "run A s ops = Some (Inr s') \<Longrightarrow> length (m_filenames s) = length (m_fileEntries s) \<Longrightarrow>
     length (m_filenames s') = length (m_fileEntries s') \<and> (aligned s \<longrightarrow> aligned s')"
proof (induction ops arbitrary: s)
  case Nil
  then show ?case by simp
next
  case (Cons operation ops)
  from Cons.prems(1) obtain s1 where p: "perform A s operation = Some (Inr s1)"
    and r: "run A s1 ops = Some (Inr s')"
    by (auto split: option.splits sum.splits)
  from perform_names [OF p Cons.prems(2)] Cons.IH [OF r] show ?case by simp
qed

text \<open>A writable open reads one name for each entry.\<close>

lemma readFileEntries_loop_entries:
  "readFileEntries_loop a h i nextOffset es0 = (True, es) \<Longrightarrow>
    i \<le> unat (fileCount h) \<Longrightarrow> length es0 = unat (fileCount h) \<Longrightarrow>
    length es = unat (fileCount h) \<and> take i es = take i es0
    \<and> drop i es = map (storedEntry a) [i..<unat (fileCount h)]"
proof (induction a h i nextOffset es0 rule: readFileEntries_loop.induct)
  case (1 a h i nextOffset es0)
  let ?n = "unat (fileCount h)"
  let ?e = "storedEntry a i"
  show ?case
  proof (cases "i < ?n")
    case False
    with "1.prems" show ?thesis
      by (subst (asm) readFileEntries_loop.simps) simp
  next
    case True
    from "1.prems"(1) True have c1: "\<not> fileEntryOffset h \<le> nextOffset"
      and c2: "\<not> byteOffset ?e < nextOffset"
      and r: "readFileEntries_loop a h (i + 1) (byteOffset ?e + ucast (fileSize ?e)) (es0[i := ?e])
               = (True, es)"
      by (subst (asm) readFileEntries_loop.simps, simp split: if_splits)+
    from True have i1: "i + 1 \<le> ?n" by simp
    from "1.prems"(3) have len: "length (es0[i := ?e]) = ?n" by simp
    from "1.IH" [OF True c1 c2 r i1 len]
    have IH: "length es = ?n" "take (i + 1) es = take (i + 1) (es0[i := ?e])"
      "drop (i + 1) es = map (storedEntry a) [i + 1..<?n]"
      by blast+
    have nth: "es ! i = ?e"
    proof -
      have "es ! i = take (i + 1) es ! i" by simp
      also have "\<dots> = take (i + 1) (es0[i := ?e]) ! i" by (simp only: IH(2))
      also have "\<dots> = ?e" using True "1.prems"(3) by simp
      finally show ?thesis .
    qed
    have d: "drop i es = ?e # drop (i + 1) es"
      using True IH(1) nth by (simp add: Cons_nth_drop_Suc [symmetric])
    have t: "take i es = take i es0"
    proof -
      have "take i es = take i (take (i + 1) es)" by (simp add: min_def)
      also have "\<dots> = take i (take (i + 1) (es0[i := ?e]))" by (simp only: IH(2))
      also have "\<dots> = take i es0" by (simp add: min_def)
      finally show ?thesis .
    qed
    have "drop i es = map (storedEntry a) [i..<?n]"
      using True IH(3) by (simp add: d upt_conv_Cons)
    then show ?thesis using IH(1) t by simp
  qed
qed

lemma readFileEntries_entries:
  assumes "readFileEntries a s = (True, s')"
  shows "m_fileEntries s' = map (storedEntry a) [0..<unat (fileCount (m_header s))]"
proof -
  let ?n = "unat (fileCount (m_header s))"
  from assms obtain es where
    r: "readFileEntries_loop a (m_header s) 0 (ucast (headerSize (m_header s)))
          (replicate ?n zeroEntry) = (True, es)"
    and s': "m_fileEntries s' = es"
    by (auto simp: readFileEntries_def split: prod.splits)
  from readFileEntries_loop_entries [OF r] have "drop 0 es = map (storedEntry a) [0..<?n]"
    by (simp only: le0 length_replicate)
  with s' show ?thesis by simp
qed

lemma openPackage_names:
  assumes o: "openPackage A (Some a) readonly = Some (Inr s)" "valid s" and rw: "\<not> m_readonly s"
  shows "m_fileEntries s = map (storedEntry a) [0..<unat (fileCount (storedHeader a))]
    \<and> m_filenames s = map (storedName a) [0..<unat (fileCount (storedHeader a))]"
proof -
  from openPackage_valid [OF o] obtain s1 s2 s3 built where
    r1: "readHeader A a (newPackage readonly True) = (True, s1)"
    and r2: "readFileEntries a s1 = (True, s2)" and r3: "readFilenames a s2 = (True, s3)"
    and b: "buildHashTable s3 = Some (Inr (built, s))" by blast
  let ?n = "unat (fileCount (storedHeader a))"
  from readHeader_header [OF r1] readFileEntries_entries [OF r2]
  have e2: "m_fileEntries s2 = map (storedEntry a) [0..<?n]" by simp
  from readHeader_frame [OF r1] readFileEntries_frame [OF r2]
  have n2: "m_filenames s2 = []" by (simp add: newPackage_def)
  from readFilenames_frame [OF r3] buildHashTable_frame [OF b] rw
  have ro: "\<not> m_readonly s2" and s: "m_fileEntries s = m_fileEntries s2" "m_filenames s = m_filenames s3"
    by simp_all
  have "m_filenames s3 = map (storedName a) [0..<?n]"
  proof (cases "m_fileEntries s2 = []")
    case True
    with r3 n2 e2 show ?thesis by (simp add: readFilenames_def)
  next
    case False
    with r3 ro e2 show ?thesis by (auto simp: readFilenames_def)
  qed
  with e2 s show ?thesis by simp
qed

lemma openPackage_gapArchive_readonly:
  "openPackage exampleAbi (Some gapArchive) True =
     Some (Inr (gapOpened\<lparr>m_readonly := True, m_filenames := []\<rparr>))"
proof -
  have h: "readHeader exampleAbi gapArchive (newPackage True True) =
     (True, (newPackage True True)\<lparr>m_header := headerOf 40 3 100\<rparr>)"
    by (simp add: readHeader_def gapArchive_def exampleAbi_def headerOf_def newPackage_def Let_def)
  have e: "readFileEntries gapArchive ((newPackage True True)\<lparr>m_header := headerOf 40 3 100\<rparr>) =
     (True, (newPackage True True)\<lparr>m_header := headerOf 40 3 100,
        m_fileEntries := [entryOf ''a'' 40 10 0, entryOf ''c'' 80 10 0, entryOf ''d'' 90 10 0]\<rparr>)"
    by (simp add: readFileEntries_def readFileEntries_loop.simps gapArchive_def headerOf_def
      entryOf_def newPackage_def replicate_3)
  have n: "readFilenames gapArchive ((newPackage True True)\<lparr>m_header := headerOf 40 3 100,
        m_fileEntries := [entryOf ''a'' 40 10 0, entryOf ''c'' 80 10 0, entryOf ''d'' 90 10 0]\<rparr>) =
     (True, (newPackage True True)\<lparr>m_header := headerOf 40 3 100,
        m_fileEntries := [entryOf ''a'' 40 10 0, entryOf ''c'' 80 10 0, entryOf ''d'' 90 10 0]\<rparr>)"
    by (simp add: readFilenames_def newPackage_def)
  have b: "buildHashTable ((newPackage True True)\<lparr>m_header := headerOf 40 3 100,
        m_fileEntries := [entryOf ''a'' 40 10 0, entryOf ''c'' 80 10 0, entryOf ''d'' 90 10 0]\<rparr>) =
      Some (Inr (True, gapOpened\<lparr>m_readonly := True, m_filenames := []\<rparr>))"
    by (simp add: buildHashTable_def fillTable.simps freeSlot.simps tableSize_loop.simps
      gapOpened_def headerOf_def entryOf_def newPackage_def MIN_HASH_TABLE_SIZE_def hash_eval)
  show ?thesis
    by (simp add: openPackage_def h e n b)
qed

section \<open>Adding and removing a name that the lookup finds\<close>

lemma probe_found:
  assumes "probe es table h0 h1 h2 hashIndex fileIndex = Some r"
  shows "\<forall>i. r = Inr (int i) \<longrightarrow> i < length es \<and> \<not> deleted (es ! i) \<and> hashMatch (es ! i) h0 h1 h2"
  by (rule probe.raw_induct [where P = "\<lambda>es table h0 h1 h2 hashIndex fileIndex r.
        \<forall>i. r = Inr (int i) \<longrightarrow> i < length es \<and> \<not> deleted (es ! i) \<and> hashMatch (es ! i) h0 h1 h2",
        OF _ assms])
     (auto split: if_splits)

lemma getFileIndex_found:
  assumes "getFileIndex s filename = Some (Inr (int i))"
  shows "i < length (m_fileEntries s) \<and> \<not> deleted (m_fileEntries s ! i)
    \<and> nameMatch (m_fileEntries s ! i) filename"
proof -
  from assms have "probe (m_fileEntries s) (m_hashTable s) (stringHash filename HASH_SEED0)
      (stringHash filename HASH_SEED1) (stringHash filename HASH_SEED2)
      (unat (stringHash filename HASH_SEED0) mod length (m_hashTable s))
      (m_hashTable s ! (unat (stringHash filename HASH_SEED0) mod length (m_hashTable s)))
    = Some (Inr (int i))"
    by (simp add: getFileIndex_def Let_def split: if_splits)
  from probe_found [OF this] show ?thesis by (simp add: nameMatch_def)
qed


lemma openPackage_emptyArchive:
  "openPackage exampleAbi (Some emptyArchive) False = Some (Inr emptyOpened)"
  by (simp add: openPackage_def readHeader_def readFileEntries_def readFilenames_def
      readFileEntries_loop.simps buildHashTable_def fillTable.simps tableSize_loop.simps
      emptyArchive_def emptyOpened_def exampleAbi_def headerOf_def newPackage_def Let_def
      MIN_HASH_TABLE_SIZE_def)


section \<open>Rebuilding the hash index\<close>

text \<open>
  The filling loop of \<^verbatim>\<open>buildHashTable\<close> puts each index into the first free slot of the
  probe chain of its entry, so every entry stays reachable.
\<close>

lemma freeSlot_step:
  "table ! index \<noteq> - 1 \<Longrightarrow> nxt = (if index + 1 \<ge> length table then 0 else index + 1) \<Longrightarrow>
     freeSlot table index = freeSlot table nxt"
  by (subst freeSlot.simps) simp

lemma freeSlot_first:
  "length table = n \<Longrightarrow> index < n \<Longrightarrow> table ! ((index + d) mod n) = - 1 \<Longrightarrow>
     \<exists>d'. freeSlot table index = Some ((index + d') mod n)
          \<and> table ! ((index + d') mod n) = - 1
          \<and> (\<forall>d''<d'. table ! ((index + d'') mod n) \<noteq> - 1)"
proof (induction d arbitrary: index)
  case 0
  then have "table ! index = - 1" by simp
  then have "freeSlot table index = Some index"
    by (subst freeSlot.simps) simp
  with 0 \<open>table ! index = - 1\<close> show ?case
    by (intro exI [of _ 0]) simp
next
  case (Suc d)
  show ?case
  proof (cases "table ! index = - 1")
    case True
    then have "freeSlot table index = Some index"
      by (subst freeSlot.simps) simp
    with Suc.prems True show ?thesis
      by (intro exI [of _ 0]) simp
  next
    case False
    let ?next = "(index + 1) mod n"
    have step: "(if index + 1 \<ge> length table then 0 else index + 1) = ?next"
    proof (cases "index + 1 = n")
      case True
      then show ?thesis using Suc.prems(1) by simp
    next
      case False
      then have "index + 1 < n" using Suc.prems(2) by simp
      then show ?thesis using Suc.prems(1) by simp
    qed
    have shift: "(?next + j) mod n = (index + Suc j) mod n" for j
      by (simp only: mod_add_left_eq) (simp add: ac_simps)
    have lt: "?next < n" using Suc.prems(2) by simp
    have "table ! ((?next + d) mod n) = - 1"
      using Suc.prems(3) by (simp only: shift)
    from Suc.IH [OF Suc.prems(1) lt this] obtain d' where
      d': "freeSlot table ?next = Some ((?next + d') mod n)"
        "table ! ((?next + d') mod n) = - 1"
        "\<forall>d''<d'. table ! ((?next + d'') mod n) \<noteq> - 1"
      by blast
    have "freeSlot table index = freeSlot table ?next"
      using False step [symmetric] by (rule freeSlot_step)
    with d' have "freeSlot table index = Some ((index + Suc d') mod n)"
      "table ! ((index + Suc d') mod n) = - 1"
      by (simp_all only: shift)
    moreover have "\<forall>d''<Suc d'. table ! ((index + d'') mod n) \<noteq> - 1"
    proof (intro allI impI)
      fix d''
      assume "d'' < Suc d'"
      show "table ! ((index + d'') mod n) \<noteq> - 1"
      proof (cases d'')
        case 0
        with False Suc.prems(2) show ?thesis by simp
      next
        case (Suc e)
        with \<open>d'' < Suc d'\<close> have "e < d'" by simp
        with d'(3) have "table ! ((?next + e) mod n) \<noteq> - 1" by blast
        from this [unfolded shift] show ?thesis unfolding Suc .
      qed
    qed
    ultimately show ?thesis by blast
  qed
qed

lemma indexed_step:
  assumes ix: "indexed es i table" and n: "length table = n"
    and k: "k = (homeSlot table (es ! i) + d) mod n" "table ! k = - 1"
      "\<forall>d'<d. table ! ((homeSlot table (es ! i) + d') mod n) \<noteq> - 1"
    and pos: "0 < n"
  shows "indexed es (Suc i) (table[k := int i])"
proof -
  let ?t = "table[k := int i]"
  have kn: "k < n" using k(1) pos by simp
  have len: "length ?t = n" using n by simp
  have home: "homeSlot ?t e = homeSlot table e" for e by (simp add: homeSlot_def)
  have keep: "?t ! x = table ! x" if "table ! x \<noteq> - 1" for x
    using that k(2) by (cases "x = k") simp_all
  have "reachable ?t es j" if j: "j < Suc i" for j
  proof (cases "j = i")
    case True
    have "?t ! ((homeSlot table (es ! i) + d) mod n) = int i"
      using kn n k(1) by simp
    moreover have "\<forall>d'<d. ?t ! ((homeSlot table (es ! i) + d') mod n) \<noteq> - 1"
      using k(3) keep by simp
    ultimately show ?thesis
      unfolding reachable_def home len True by blast
  next
    case False
    with j ix have "reachable table es j" by (simp add: indexed_def)
    then obtain e where e: "table ! ((homeSlot table (es ! j) + e) mod n) = int j"
      "\<forall>d'<e. table ! ((homeSlot table (es ! j) + d') mod n) \<noteq> - 1"
      unfolding reachable_def n by blast
    from e(1) have "table ! ((homeSlot table (es ! j) + e) mod n) \<noteq> - 1" by simp
    from keep [OF this] e(1) have "?t ! ((homeSlot table (es ! j) + e) mod n) = int j" by simp
    moreover have "\<forall>d'<e. ?t ! ((homeSlot table (es ! j) + d') mod n) \<noteq> - 1"
      using e(2) keep by simp
    ultimately show ?thesis
      unfolding reachable_def home len by blast
  qed
  moreover have "v = - 1 \<or> (0 \<le> v \<and> v < int (Suc i))" if "v \<in> set ?t" for v
  proof -
    from that have "v = int i \<or> v \<in> set table"
      using set_update_subset_insert [of table k "int i"] by auto
    with ix show ?thesis by (auto simp: indexed_def)
  qed
  ultimately show ?thesis unfolding indexed_def by blast
qed

lemma fillTable_indexed:
  "indexed es i table \<Longrightarrow> i \<le> count \<Longrightarrow> used table + (count - i) < length table \<Longrightarrow>
     fillTable es count i table = Some (Inr t) \<Longrightarrow> indexed es count t"
proof (induction es count i table rule: fillTable.induct)
  case (1 es count i table)
  show ?case
  proof (cases "i < count")
    case False
    with "1.prems" have "t = table" "i = count"
      by (subst (asm) fillTable.simps, simp)+
    with "1.prems"(1) show ?thesis by simp
  next
    case True
    from "1.prems"(4) True have i: "i < length es"
      by (subst (asm) fillTable.simps) (simp split: if_splits)
    with "1.prems"(4) True obtain k where
      f: "freeSlot table (unat (hash0 (es ! i)) mod length table) = Some k"
      and r: "fillTable es count (i + 1) (table[k := int i]) = Some (Inr t)"
      by (subst (asm) fillTable.simps) (simp split: option.splits)
    from True "1.prems"(3) have u: "used table < length table" by simp
    then have pos: "0 < length table" by (cases table) simp_all
    from used_free [OF u] obtain j where j: "j < length table" "table ! j = - 1" by blast
    let ?h = "homeSlot table (es ! i)"
    have h: "?h < length table" using pos by (simp add: homeSlot_def)
    have "(?h + (j + length table - ?h)) mod length table = j"
      using j(1) h by simp
    with j(2) have "table ! ((?h + (j + length table - ?h)) mod length table) = - 1" by simp
    from freeSlot_first [OF refl h this] f obtain d where
      d: "k = (?h + d) mod length table" "table ! k = - 1"
         "\<forall>d'<d. table ! ((?h + d') mod length table) \<noteq> - 1"
      by (auto simp: homeSlot_def)
    from indexed_step [OF "1.prems"(1) refl d pos]
    have ix: "indexed es (i + 1) (table[k := int i])" by simp
    have kn: "k < length table" using d(1) pos by simp
    have "used (table[k := int i]) = Suc (used table)"
      using kn d(2) by (intro used_update) simp_all
    with "1.prems"(3) True have u': "used (table[k := int i]) + (count - (i + 1)) < length (table[k := int i])"
      by simp
    from True have "i + 1 \<le> count" by simp
    from "1.IH" [OF True _ f ix this u' r] i show ?thesis by simp
  qed
qed

lemma indexed_lookup:
  assumes ix: "indexed es count table" and c: "count \<le> length es" and j: "j < count"
    and pos: "0 < length table"
    and m: "hashMatch (es ! j) h0 h1 h2"
  shows "\<exists>m<count. hashMatch (es ! m) h0 h1 h2
    \<and> probe es table h0 h1 h2 (unat h0 mod length table) (table ! (unat h0 mod length table)) =
        Some (Inr (if deleted (es ! m) then - 1 else int m))"
proof -
  let ?n = "length table"
  let ?home = "unat h0 mod ?n"
  let ?slot = "\<lambda>d. table ! ((?home + d) mod ?n)"
  let ?Q = "\<lambda>d. 0 \<le> ?slot d \<and> hashMatch (es ! nat (?slot d)) h0 h1 h2"
  from m have home: "homeSlot table (es ! j) = ?home" by (simp add: homeSlot_def hashMatch_def)
  from ix j have "reachable table es j" by (simp add: indexed_def)
  then obtain d where d: "?slot d = int j" "\<forall>d'<d. ?slot d' \<noteq> - 1"
    unfolding reachable_def home by blast
  from d(1) m have Qd: "?Q d" by simp
  define k where "k = (LEAST d. ?Q d)"
  from Qd have Qk: "?Q k" unfolding k_def by (rule LeastI)
  from Qd have kd: "k \<le> d" unfolding k_def by (rule Least_le)
  have notQ: "\<not> ?Q d'" if "d' < k" for d'
    using that unfolding k_def by (rule not_less_Least)
  have range: "0 \<le> ?slot d' \<and> ?slot d' < int count" if "?slot d' \<noteq> - 1" for d'
  proof -
    have "?slot d' \<in> set table" using pos by simp
    with ix that show ?thesis by (auto simp: indexed_def)
  qed
  have before: "\<forall>d'<k. 0 \<le> ?slot d' \<and> nat (?slot d') < length es
      \<and> \<not> hashMatch (es ! nat (?slot d')) h0 h1 h2"
  proof (intro allI impI)
    fix d'
    assume lt: "d' < k"
    with kd d(2) have "?slot d' \<noteq> - 1" by simp
    from range [OF this] c notQ [OF lt]
    show "0 \<le> ?slot d' \<and> nat (?slot d') < length es
      \<and> \<not> hashMatch (es ! nat (?slot d')) h0 h1 h2" by auto
  qed
  from Qk have "?slot k \<noteq> - 1" by auto
  from range [OF this] c have here: "0 \<le> ?slot k" "nat (?slot k) < length es" "nat (?slot k) < count"
    by auto
  have "?home < ?n" using pos by simp
  from probe_chain [OF refl this before here(1,2) conjunct2 [OF Qk]]
  have "probe es table h0 h1 h2 ?home (table ! ?home) =
      Some (Inr (if deleted (es ! nat (?slot k)) then - 1 else int (nat (?slot k))))"
    using here(1) by simp
  with here(3) Qk show ?thesis by (intro exI [of _ "nat (?slot k)"]) simp
qed

lemma fillTable_count:
  "fillTable es count i table = Some (Inr t) \<Longrightarrow> i < count \<Longrightarrow> count \<le> length es"
proof (induction es count i table rule: fillTable.induct)
  case (1 es count i table)
  from "1.prems" have i: "i < length es"
    by (subst (asm) fillTable.simps) (simp split: if_splits)
  with "1.prems" obtain k where
    f: "freeSlot table (unat (hash0 (es ! i)) mod length table) = Some k"
    and r: "fillTable es count (i + 1) (table[k := int i]) = Some (Inr t)"
    by (subst (asm) fillTable.simps) (simp split: option.splits)
  show ?case
  proof (cases "i + 1 < count")
    case True
    from "1.IH" [OF "1.prems"(2) _ f r True] i show ?thesis by simp
  next
    case False
    with "1.prems"(2) i show ?thesis by simp
  qed
qed

lemma indexed_empty: "indexed es 0 (replicate n (- 1))"
  by (simp add: indexed_def)

lemma buildHashTable_indexed:
  assumes "buildHashTable s = Some (Inr (True, s'))"
  shows "unat (fileCount (m_header s)) \<le> length (m_fileEntries s)
    \<and> indexed (m_fileEntries s) (unat (fileCount (m_header s))) (m_hashTable s')"
proof -
  let ?n = "unat (fileCount (m_header s))"
  from buildHashTable_True_size [OF assms] obtain t j where
    t: "tableSize_loop (MIN_HASH_TABLE_SIZE div 2) ?n = Some (Some t)" "t = 2 ^ j" "?n \<le> t"
    by blast
  with assms have f: "fillTable (m_fileEntries s) ?n 0 (replicate (t * 2) (- 1)) = Some (Inr (m_hashTable s'))"
    by (auto simp: buildHashTable_def split: option.splits sum.splits)
  from t(2) have "0 < t" by simp
  with t(3) have u: "used (replicate (t * 2) (- 1)) + (?n - 0) < length (replicate (t * 2) (- 1 :: int))"
    by (simp add: used_replicate)
  from fillTable_indexed [OF indexed_empty _ u f]
  have "indexed (m_fileEntries s) ?n (m_hashTable s')" by simp
  moreover have "?n \<le> length (m_fileEntries s)"
    using fillTable_count [OF f] by (cases "0 < ?n") simp_all
  ultimately show ?thesis by simp
qed

lemma getFileIndex_indexed:
  assumes ix: "indexed (m_fileEntries s) count (m_hashTable s)"
    and c: "count \<le> length (m_fileEntries s)" and j: "j < count"
    and ne: "m_hashTable s \<noteq> []"
    and m: "nameMatch (m_fileEntries s ! j) filename"
  shows "\<exists>m<count. nameMatch (m_fileEntries s ! m) filename
    \<and> getFileIndex s filename =
        Some (Inr (if deleted (m_fileEntries s ! m) then - 1 else int m))"
proof -
  from ne have "0 < length (m_hashTable s)" by simp
  from indexed_lookup [OF ix c j this m [unfolded nameMatch_def]] ne
  show ?thesis by (simp add: getFileIndex_def Let_def nameMatch_def)
qed

subsection \<open>Flushing\<close>

lemma flush_loop_zip:
  "length ns = length es \<Longrightarrow>
     snd (flush_loop es ns) = map snd (filter (\<lambda>p. \<not> deleted (fst p)) (zip es ns))"
proof (induction es ns rule: flush_loop.induct)
  case (1 entry es name ns)
  then show ?case by (auto split: prod.splits)
qed simp_all

lemma run_gapSpliced:
  "run exampleAbi gapOpened [RemoveFile ''c'', AddFile (Some 20) ''n'' 0] = Some (Inr gapSpliced)"
  by (simp add: gapOpened_def gapSpliced_def op_eval map_update)

lemma flush_gapSpliced: "flush gapSpliced = Some (Inr gapFlushed)"
  by (simp add: gapSpliced_def gapFlushed_def op_eval)

lemma buildHashTable_small:
  assumes "buildHashTable s = Some (Inr (built, t))"
    and "unat (fileCount (m_header s)) \<le> MAX_HASH_TABLE_SIZE"
  shows "built"
proof -
  obtain r where r: "tableSize_loop (MIN_HASH_TABLE_SIZE div 2) (unat (fileCount (m_header s))) = Some r"
    and sp: "sizeSpec 7 (unat (fileCount (m_header s))) r"
    using tableSize_start by blast
  from sp assms(2) obtain n where "r = Some n" by (cases r) (auto simp: sizeSpec_def)
  with r assms(1) show ?thesis
    by (auto simp: buildHashTable_def split: option.splits sum.splits)
qed

lemma flush_loop_live:
  "length ns = length es \<Longrightarrow> \<forall>e \<in> set es. \<not> deleted e \<Longrightarrow> flush_loop es ns = (es, ns)"
  by (induction es ns rule: flush_loop.induct) auto

lemma buildHashTable_bigDirty:
  "buildHashTable (compacted bigDirty) = Some (Inr (False, compacted bigDirty))"
  by (rule buildHashTable_fails)
    (simp add: compacted_def bigDirty_def headerOf_def MAX_HASH_TABLE_SIZE_def)

lemma compacted_bigDirty:
  "compacted bigDirty =
     bigDirty\<lparr>m_header := (m_header bigDirty)\<lparr>filenameSize := namesSize (m_filenames bigDirty)\<rparr>\<rparr>"
proof -
  have "flush_loop (m_fileEntries bigDirty) (m_filenames bigDirty) =
      (m_fileEntries bigDirty, m_filenames bigDirty)"
    by (rule flush_loop_live)
      (simp_all add: bigDirty_def entryOf_def deleted_def FILE_FLAG_DELETED_def)
  then show ?thesis by (simp add: compacted_def)
qed

lemma flush_bigDirty: "flush bigDirty = Some (Inr ((compacted bigDirty)\<lparr>m_dirty := False\<rparr>))"
proof -
  have f: "flush_loop (m_fileEntries bigDirty) (m_filenames bigDirty) =
      (m_fileEntries bigDirty, m_filenames bigDirty)"
    by (rule flush_loop_live)
      (simp_all add: bigDirty_def entryOf_def deleted_def FILE_FLAG_DELETED_def)
  have g: "\<not> m_readonly bigDirty" "m_dirty bigDirty"
    "length (m_filenames bigDirty) = length (m_fileEntries bigDirty)"
    by (simp_all add: bigDirty_def)
  show ?thesis
    unfolding flush_def using g
    by (simp add: f compacted_bigDirty [symmetric] buildHashTable_bigDirty)
qed

subsection \<open>Adding empty files to the empty package\<close>

lemma getFileIndex_free:
  "m_hashTable s = replicate 256 (- 1) \<Longrightarrow> getFileIndex s filename = Some (Inr (- 1))"
  by (simp add: getFileIndex_def Let_def probe.simps)

lemma headerOf_Suc:
  assumes "Suc n < 2 ^ 32"
  shows "recountNames exampleAbi ((headerOf 40 n 40)\<lparr>fileCount := fileCount (headerOf 40 n 40) + 1\<rparr>)
    = headerOf 40 (Suc n) 40"
proof -
  from assms have "Suc n < 2 ^ 64"
    by (rule less_trans) simp
  with assms have "unat (ucast (of_nat (Suc n) :: u32) :: u64) = unat (of_nat (Suc n) :: u64)"
    by (simp add: unat_of_nat del: of_nat_Suc)
  then have "ucast (of_nat (Suc n) :: u32) = (of_nat (Suc n) :: u64)"
    by (simp only: word_unat_eq_iff)
  then have "ucast (1 + of_nat n :: u32) = (1 + of_nat n :: u64)" by simp
  then show ?thesis
    by (simp add: recountNames_def headerOf_def exampleAbi_def algebra_simps)
qed

lemma addFile_emptyOpened:
  "addFile exampleAbi emptyOpened (Some 0) [] 0 = Some (Inr (True, emptyFiles 1))"
proof -
  have g: "getFileIndex emptyOpened [] = Some (Inr (- 1))"
    by (rule getFileIndex_free) (simp add: emptyOpened_def)
  have i: "insertFile exampleAbi emptyOpened
        \<lparr>hash0 = stringHash [] HASH_SEED0, hash1 = stringHash [] HASH_SEED1,
         hash2 = stringHash [] HASH_SEED2, byteOffset = 0, fileSize = 0, flag = 0\<rparr> [] =
      Inr (entryOf [] 40 0 0, emptyOpened\<lparr>m_fileEntries := [entryOf [] 40 0 0], m_filenames := [[]]\<rparr>)"
    by (simp add: insertFile_def emptyOpened_def entryOf_def exampleAbi_def headerOf_def Let_def)
  have h: "recountNames exampleAbi ((headerOf 40 0 40)\<lparr>fileCount := fileCount (headerOf 40 0 40) + 1\<rparr>)
    = headerOf 40 (Suc 0) 40"
    by (rule headerOf_Suc) simp
  have r: "\<not> m_readonly emptyOpened" "m_header emptyOpened = headerOf 40 0 40"
    by (simp_all add: emptyOpened_def)
  have "addFile_insert exampleAbi emptyOpened 0 [] = Some (Inr (True, emptyFiles 1))"
    apply (simp add: addFile_insert_def Let_def i r h)
    apply (simp add: emptyOpened_def emptyFiles_def)
    done
  with g r show ?thesis by (simp add: addFile_def)
qed

lemma addFile_emptyFiles:
  assumes "0 < n" "Suc n < 2 ^ 32"
  shows "addFile exampleAbi (emptyFiles n) (Some 0) [] 0 = Some (Inr (True, emptyFiles (Suc n)))"
proof -
  let ?e = "entryOf [] 40 0 0"
  from assms(1) obtain k where k: "n = Suc k" by (cases n) auto
  have g: "getFileIndex (emptyFiles n) [] = Some (Inr (- 1))"
    by (rule getFileIndex_free) (simp add: emptyFiles_def)
  have sc: "insertFile_scan (replicate n ?e) 0 0 40 = Some (0, 40)"
    unfolding k by (simp add: entryOf_def deleted_def FILE_FLAG_DELETED_def)
  have i: "insertFile exampleAbi (emptyFiles n)
        \<lparr>hash0 = stringHash [] HASH_SEED0, hash1 = stringHash [] HASH_SEED1,
         hash2 = stringHash [] HASH_SEED2, byteOffset = 0, fileSize = 0, flag = 0\<rparr> [] =
      Inr (?e, (emptyFiles n)\<lparr>m_fileEntries := replicate (Suc n) ?e,
                               m_filenames := replicate (Suc n) []\<rparr>)"
    using sc
    by (simp add: insertFile_def emptyFiles_def headerOf_def insertAt_def fixHashTable_def
        entryOf_def Let_def)
  have r: "\<not> m_readonly (emptyFiles n)" "m_header (emptyFiles n) = headerOf 40 n 40"
    by (simp_all add: emptyFiles_def)
  have "addFile_insert exampleAbi (emptyFiles n) 0 [] = Some (Inr (True, emptyFiles (Suc n)))"
    apply (simp add: addFile_insert_def Let_def i r headerOf_Suc [OF assms(2)])
    apply (simp add: emptyFiles_def)
    done
  with g r show ?thesis by (simp add: addFile_def)
qed

lemma run_emptyFiles:
  "0 < n \<Longrightarrow> n + k < 2 ^ 32 \<Longrightarrow>
     run exampleAbi (emptyFiles n) (replicate k (AddFile (Some 0) [] 0)) =
       Some (Inr (emptyFiles (n + k)))"
proof (induction k arbitrary: n)
  case 0
  then show ?case by simp
next
  case (Suc k)
  from Suc.prems have "Suc n < 2 ^ 32" by simp
  from addFile_emptyFiles [OF Suc.prems(1) this] Suc.IH [of "Suc n"] Suc.prems
  show ?case by (simp add: stateOf_def)
qed

lemma run_emptyOpened:
  assumes "Suc k < 2 ^ 32"
  shows "run exampleAbi emptyOpened (replicate (Suc k) (AddFile (Some 0) [] 0)) =
       Some (Inr (emptyFiles (Suc k)))"
  using run_emptyFiles [of 1 k] assms addFile_emptyOpened by (simp add: stateOf_def)

lemma run_bigDirty:
  "run exampleAbi emptyOpened (replicate 0x80001 (AddFile (Some 0) [] 0)) = Some (Inr bigDirty)"
proof -
  have n: "(0x80001 :: nat) = Suc 0x80000" by simp
  have "bigDirty = emptyFiles (Suc 0x80000)"
    unfolding n [symmetric] by (simp add: bigDirty_def emptyFiles_def)
  moreover have "Suc 0x80000 < (2 :: nat) ^ 32" by simp
  ultimately show ?thesis unfolding n using run_emptyOpened [of "0x80000"] by simp
qed

section \<open>The lookup on an empty hash index\<close>

text \<open>
  Each operation that calls \<^verbatim>\<open>getFileIndex\<close> divides by zero exactly when the hash index
  is empty and the operation does not return before the lookup.
\<close>

lemma hasFile_modulo_iff:
  "hasFile s filename = Some (Inl ModuloByZero) \<longleftrightarrow> m_hashTable s = [] \<and> \<not> m_dirty s"
proof (cases "m_dirty s")
  case True
  then show ?thesis by (simp add: hasFile_def)
next
  case False
  then have "hasFile s filename = Some (Inl ModuloByZero)
      \<longleftrightarrow> getFileIndex s filename = Some (Inl ModuloByZero)"
    by (auto simp: hasFile_def split: option.splits sum.splits)
  with False show ?thesis by (simp add: getFileIndex_modulo_iff)
qed

lemma openFile_modulo_iff:
  "openFile s filename = Some (Inl ModuloByZero) \<longleftrightarrow> m_hashTable s = [] \<and> \<not> m_dirty s"
proof (cases "m_dirty s")
  case True
  then show ?thesis by (simp add: openFile_def)
next
  case False
  then have "openFile s filename = Some (Inl ModuloByZero)
      \<longleftrightarrow> getFileIndex s filename = Some (Inl ModuloByZero)"
    by (auto simp: openFile_def split: option.splits sum.splits)
  with False show ?thesis by (simp add: getFileIndex_modulo_iff)
qed

lemma removeFile_modulo_iff:
  "removeFile A s filename = Some (Inl ModuloByZero) \<longleftrightarrow> m_hashTable s = [] \<and> \<not> m_readonly s"
proof (cases "m_readonly s")
  case True
  then show ?thesis by (simp add: removeFile_def)
next
  case False
  then have "removeFile A s filename = Some (Inl ModuloByZero)
      \<longleftrightarrow> getFileIndex s filename = Some (Inl ModuloByZero)"
    by (auto simp: removeFile_def split: option.splits sum.splits)
  with False show ?thesis by (simp add: getFileIndex_modulo_iff)
qed

lemma insertFile_no_modulo: "insertFile A s entry filename \<noteq> Inl ModuloByZero"
  by (auto simp: insertFile_def Let_def split: option.splits prod.splits)

lemma addFile_insert_no_modulo: "addFile_insert A s n filename \<noteq> Some (Inl ModuloByZero)"
  using insertFile_no_modulo [of A s _ filename]
  by (auto simp: addFile_insert_def Let_def split: sum.splits prod.splits)

lemma addFile_modulo_iff:
  "addFile A s externalFile filename flg = Some (Inl ModuloByZero)
     \<longleftrightarrow> m_hashTable s = [] \<and> \<not> m_readonly s \<and> externalFile \<noteq> None"
proof (cases "m_readonly s \<or> externalFile = None")
  case True
  then show ?thesis by (auto simp: addFile_def)
next
  case False
  then obtain n where n: "externalFile = Some n" and w: "\<not> m_readonly s" by auto
  show ?thesis
  proof (cases "m_hashTable s = []")
    case True
    then have "getFileIndex s filename = Some (Inl ModuloByZero)"
      by (simp add: getFileIndex_modulo_iff)
    with True n w show ?thesis by (simp add: addFile_def)
  next
    case False
    then have g: "getFileIndex s filename \<noteq> Some (Inl ModuloByZero)"
      and r: "removeFile A s filename \<noteq> Some (Inl ModuloByZero)"
      by (simp_all add: getFileIndex_modulo_iff removeFile_modulo_iff)
    have "addFile A s (Some n) filename flg \<noteq> Some (Inl ModuloByZero)"
      using g r w addFile_insert_no_modulo [of A _ n filename]
      by (auto simp: addFile_def split: option.splits sum.splits if_splits)
    with False n show ?thesis by simp
  qed
qed

lemma openPackage_small:
  assumes "openPackage A file readonly = Some (Inr s)" and "valid s"
    and "unat (fileCount (m_header s)) \<le> MAX_HASH_TABLE_SIZE"
  shows "m_hashTable s \<noteq> []"
proof -
  from assms(1,2) obtain a where a: "file = Some a"
    by (cases "file") (auto simp: openPackage_def newPackage_def valid_def)
  from openPackage_valid [OF assms(1) [unfolded a] assms(2)] obtain s3 built where
    b: "buildHashTable s3 = Some (Inr (built, s))" by blast
  from buildHashTable_frame [OF b] assms(3)
  have "unat (fileCount (m_header s3)) \<le> MAX_HASH_TABLE_SIZE" by simp
  from buildHashTable_small [OF b this] b
  have "buildHashTable s3 = Some (Inr (True, s))" by simp
  from buildHashTable_True_size [OF this] have "length (m_hashTable s) \<noteq> 0" by auto
  then show ?thesis by simp
qed

lemma openPackage_bigArchive: "openPackage exampleAbi (Some bigArchive) True = Some (Inr bigLoaded)"
proof -
  have n: "MAX_HASH_TABLE_SIZE < unat (fileCount (m_header bigLoaded))"
    by (simp add: bigLoaded_def bigArchive_def headerOf_def MAX_HASH_TABLE_SIZE_def)
  have "readFilenames bigArchive bigLoaded = (True, bigLoaded)"
    by (simp add: readFilenames_def bigLoaded_def newPackage_def)
  then show ?thesis
    by (simp add: openPackage_def readHeader_bigArchive readFileEntries_bigArchive
        buildHashTable_fails [OF n])
qed

lemma openPackage_badArchive_readonly:
  "openPackage exampleAbi (Some badArchive) True =
     Some (Inr ((newPackage True False)\<lparr>m_header := storedHeader badArchive\<rparr>))"
  by (simp add: openPackage_def readHeader_def badArchive_def exampleAbi_def headerOf_def
      newPackage_def Let_def)

text \<open>A read-only open reads no names.\<close>

lemma openPackage_readonly_names:
  assumes "openPackage A file True = Some (Inr s)"
  shows "m_filenames s = []"
proof (cases "file")
  case None
  with assms show ?thesis by (auto simp: openPackage_def newPackage_def)
next
  case (Some a)
  obtain ok1 s1 where r1: "readHeader A a (newPackage True True) = (ok1, s1)" by force
  obtain ok2 s2 where r2: "readFileEntries a s1 = (ok2, s2)" by force
  obtain ok3 s3 where r3: "readFilenames a s2 = (ok3, s3)" by force
  have f1: "m_filenames s1 = [] \<and> m_readonly s1"
    using r1 by (auto simp: readHeader_def newPackage_def Let_def split: if_splits)
  have f2: "m_filenames s2 = [] \<and> m_readonly s2"
    using r2 f1 by (auto simp: readFileEntries_def split: prod.splits)
  have f3: "m_filenames s3 = []"
    using r3 f2 by (auto simp: readFilenames_def)
  from readFilenames_frame [OF r3] have ok3: ok3 by simp
  show ?thesis
  proof (cases ok1)
    case False
    with assms Some r1 have "s = s1\<lparr>m_isOpen := False\<rparr>" by (simp add: openPackage_def)
    with f1 show ?thesis by simp
  next
    case ok1: True
    show ?thesis
    proof (cases ok2)
      case False
      with assms Some r1 r2 ok1 have "s = s2\<lparr>m_isOpen := False\<rparr>"
        by (simp add: openPackage_def)
      with f2 show ?thesis by simp
    next
      case True
      with assms Some r1 r2 r3 ok1 ok3 obtain built where
        "buildHashTable s3 = Some (Inr (built, s))"
        by (auto simp: openPackage_def split: option.splits sum.splits)
      from buildHashTable_frame [OF this] f3 show ?thesis by simp
    qed
  qed
qed

section \<open>Adding a name that the hash index holds\<close>




text \<open>
  The hash index indexes the entries after a successful open and after a flush below
  the maximum table size, and \<^verbatim>\<open>removeFile\<close> keeps it so.
\<close>

lemma homeSlot_tombstone: "homeSlot table (tombstone e) = homeSlot table e"
  by (simp add: homeSlot_def tombstone_def)

lemma indexed_tombstone:
  "indexed es c table \<Longrightarrow> indexed (es[i := tombstone (es ! i)]) c table"
proof -
  have "homeSlot table (es[i := tombstone (es ! i)] ! j) = homeSlot table (es ! j)" for j
    by (cases "i < length es"; cases "j = i")
      (simp_all add: homeSlot_tombstone list_update_beyond)
  then show "indexed es c table \<Longrightarrow> indexed (es[i := tombstone (es ! i)]) c table"
    by (simp add: indexed_def reachable_def)
qed

lemma openPackage_indexed:
  assumes "openPackage A (Some a) readonly = Some (Inr s)" and "valid s"
    and "unat (fileCount (m_header s)) \<le> MAX_HASH_TABLE_SIZE"
  shows "indexed (m_fileEntries s) (unat (fileCount (m_header s))) (m_hashTable s)
    \<and> unat (fileCount (m_header s)) \<le> length (m_fileEntries s) \<and> m_hashTable s \<noteq> []"
proof -
  from openPackage_valid [OF assms(1,2)] obtain s3 built where
    b: "buildHashTable s3 = Some (Inr (built, s))" by blast
  note fr = buildHashTable_frame [OF b]
  from fr assms(3) have "unat (fileCount (m_header s3)) \<le> MAX_HASH_TABLE_SIZE" by simp
  from buildHashTable_small [OF b this] b
  have t: "buildHashTable s3 = Some (Inr (True, s))" by simp
  from buildHashTable_True_size [OF t] have "length (m_hashTable s) \<noteq> 0" by auto
  with buildHashTable_indexed [OF t] fr show ?thesis by simp
qed

lemma flush_indexed:
  assumes "flush s = Some (Inr s')" and "\<not> m_readonly s" and "m_dirty s"
    and "unat (fileCount (m_header s)) \<le> MAX_HASH_TABLE_SIZE"
  shows "indexed (m_fileEntries s') (unat (fileCount (m_header s'))) (m_hashTable s')
    \<and> unat (fileCount (m_header s')) \<le> length (m_fileEntries s') \<and> m_hashTable s' \<noteq> []"
proof -
  from flush_cases [OF assms(1)] assms(2,3) obtain built t where
    b: "buildHashTable (compacted s) = Some (Inr (built, t))"
    and s': "s' = t\<lparr>m_dirty := False\<rparr>"
    by blast
  note fr = buildHashTable_frame [OF b]
  have "fileCount (m_header (compacted s)) = fileCount (m_header s)" by (simp add: compacted_def)
  with assms(4) have "unat (fileCount (m_header (compacted s))) \<le> MAX_HASH_TABLE_SIZE" by simp
  from buildHashTable_small [OF b this] b
  have t: "buildHashTable (compacted s) = Some (Inr (True, t))" by simp
  from buildHashTable_True_size [OF t] have "length (m_hashTable t) \<noteq> 0" by auto
  with buildHashTable_indexed [OF t] fr show ?thesis unfolding s' by simp
qed

lemma removeFile_indexed:
  assumes "removeFile A s filename = Some (Inr (b, s'))"
    and "indexed (m_fileEntries s) c (m_hashTable s)"
  shows "indexed (m_fileEntries s') c (m_hashTable s')"
proof -
  from removeFile_cases [OF assms(1)] consider "s' = s"
    | i where "s' = s\<lparr>m_fileEntries := (m_fileEntries s)[i := tombstone (m_fileEntries s ! i)],
            m_header := recountNames A ((m_header s)\<lparr>fileCount := fileCount (m_header s) - 1\<rparr>),
            m_dirty := True\<rparr>"
    by blast
  then show ?thesis
  proof cases
    case 1
    with assms(2) show ?thesis by simp
  next
    case 2
    with indexed_tombstone [OF assms(2), of i] show ?thesis by simp
  qed
qed


section \<open>Properties stated by the specification\<close>

text \<open>
  C1 (as amended). Take a package opened from an archive whose header size is
  \<^verbatim>\<open>sizeof(PackageHeader)\<close> and whose entries end at or below \<open>B\<close>, and any sequence of
  \<^verbatim>\<open>addFile\<close>, \<^verbatim>\<open>removeFile\<close>, \<^verbatim>\<open>flush\<close> and \<^verbatim>\<open>defrag\<close> calls that return, short enough
  for no offset to pass 64 bits. Afterwards the live entries of the table are in
  ascending \<^verbatim>\<open>byteOffset\<close> order, and whenever the package is not dirty (after open, flush
  and defrag) the whole table is.
\<close>

theorem live_entries_sorted:
  assumes "openPackage A (Some a) readonly = Some (Inr s0)" and "valid s0"
    and "unat (headerSize (storedHeader a)) = sizeof_PackageHeader A"
    and "unat (headerSize (storedHeader a)) \<le> B"
    and "\<forall>i < unat (fileCount (storedHeader a)). fin (storedEntry a i) \<le> B"
    and "B + 2 ^ 32 * length ops < 2 ^ 64"
    and "run A s0 ops = Some (Inr s)"
  shows "sorted (map byteOffset (filter (\<lambda>e. \<not> deleted e) (m_fileEntries s)))
    \<and> (m_dirty s \<or> sorted (map byteOffset (m_fileEntries s)))"
proof -
  from assms(6) have "B < 2 ^ 64" by simp
  from openPackage_layout [OF assms(1-5) this] have "layoutOk A B s0" .
  from run_layout [OF this assms(6,7)] show ?thesis by (rule layoutOk_sorted)
qed

text \<open>
  The witness: an archive of three entries with a gap; the second is removed, a new
  one is added into the gap, and the package is flushed.
\<close>

theorem live_entries_sorted_witness:
  "openPackage exampleAbi (Some gapArchive) False = Some (Inr gapOpened)
   \<and> valid gapOpened
   \<and> unat (headerSize (storedHeader gapArchive)) = sizeof_PackageHeader exampleAbi
   \<and> unat (headerSize (storedHeader gapArchive)) \<le> 100
   \<and> unat (fileCount (storedHeader gapArchive)) = 3
   \<and> fin (storedEntry gapArchive 0) \<le> 100
   \<and> fin (storedEntry gapArchive 1) \<le> 100
   \<and> fin (storedEntry gapArchive 2) \<le> 100
   \<and> 100 + 2 ^ 32 * length [RemoveFile ''c'', AddFile (Some 20) ''n'' 0, Flush] < (2 :: nat) ^ 64
   \<and> run exampleAbi gapOpened [RemoveFile ''c'', AddFile (Some 20) ''n'' 0, Flush] =
       Some (Inr gapFlushed)
   \<and> sorted (map byteOffset (filter (\<lambda>e. \<not> deleted e) (m_fileEntries gapFlushed)))
   \<and> (m_dirty gapFlushed \<or> sorted (map byteOffset (m_fileEntries gapFlushed)))"
proof -
  have v: "valid gapOpened" by (simp add: valid_def gapOpened_def)
  have h: "unat (headerSize (storedHeader gapArchive)) = sizeof_PackageHeader exampleAbi"
    "unat (headerSize (storedHeader gapArchive)) \<le> 100"
    by (simp_all add: gapArchive_def headerOf_def exampleAbi_def)
  have n: "unat (fileCount (storedHeader gapArchive)) = 3"
    by (simp add: gapArchive_def headerOf_def)
  have f: "fin (storedEntry gapArchive 0) \<le> 100" "fin (storedEntry gapArchive 1) \<le> 100"
    "fin (storedEntry gapArchive 2) \<le> 100"
    by (simp_all add: gapArchive_def entryOf_def fin_def)
  have three: "i < 3 \<longleftrightarrow> i = 0 \<or> i = 1 \<or> i = 2" for i :: nat by auto
  from f have all: "\<forall>i < unat (fileCount (storedHeader gapArchive)). fin (storedEntry gapArchive i) \<le> 100"
    unfolding n three by blast
  have B: "100 + 2 ^ 32 * length [RemoveFile ''c'', AddFile (Some 20) ''n'' 0, Flush] < (2 :: nat) ^ 64"
    by simp
  from live_entries_sorted [OF openPackage_gapArchive v h all B run_gap_flush]
  show ?thesis
    using openPackage_gapArchive v h n f B run_gap_flush by blast
qed

text \<open>
  C1 as stated fails after a splice behind a tombstoned entry: the new entry gets the
  offset 50 after the live entry it follows, and sits behind the tombstoned entry at 80.
\<close>

theorem entry_table_sorted_counterexample:
  "(case openPackage exampleAbi (Some gapArchive) False of
      Some (Inr s0) \<Rightarrow>
        valid s0 \<and> sorted (map byteOffset (m_fileEntries s0))
        \<and> (case run exampleAbi s0 [RemoveFile ''c'', AddFile (Some 20) ''n'' 0] of
             Some (Inr s) \<Rightarrow>
               map byteOffset (m_fileEntries s) = [40, 80, 50, 90]
               \<and> map deleted (m_fileEntries s) = [False, True, False, False]
               \<and> \<not> sorted (map byteOffset (m_fileEntries s))
           | _ \<Rightarrow> False)
    | _ \<Rightarrow> False)"
proof -
  have "valid gapOpened \<and> sorted (map byteOffset (m_fileEntries gapOpened))"
    by (simp add: valid_def gapOpened_def entryOf_def)
  moreover have "\<not> sorted [40, 80, 50, 90 :: u64]" by simp
  ultimately show ?thesis
    using run_gap_splice
    by (simp add: openPackage_gapArchive split: option.splits sum.splits)
qed




text \<open>
  C3. \<^verbatim>\<open>getFileIndex\<close> walks the probe chain that starts at \<open>hash0 mod tableSize\<close>:
  \<open>probeSlot s filename j\<close> is the content of its \<open>j\<close>-th slot. If the first \<open>k\<close> slots hold
  entries that do not match the three hashes of the name and slot \<open>k\<close> holds one that
  does, the lookup stops there: it returns \<open>- 1\<close> when that entry carries the deleted
  flag, without looking at any later slot, and the entry's index when it is live.
\<close>

theorem getFileIndex_first_match:
  assumes "m_hashTable s \<noteq> []"
    and "\<forall>j<k. 0 \<le> probeSlot s filename j
           \<and> nat (probeSlot s filename j) < length (m_fileEntries s)
           \<and> \<not> nameMatch (m_fileEntries s ! nat (probeSlot s filename j)) filename"
    and "0 \<le> probeSlot s filename k"
    and "nat (probeSlot s filename k) < length (m_fileEntries s)"
    and "nameMatch (m_fileEntries s ! nat (probeSlot s filename k)) filename"
  shows "getFileIndex s filename =
           Some (Inr (if deleted (m_fileEntries s ! nat (probeSlot s filename k)) then - 1
                      else probeSlot s filename k))"
proof -
  let ?n = "length (m_hashTable s)"
  let ?h = "unat (stringHash filename HASH_SEED0) mod ?n"
  have n: "0 < ?n" using assms(1) by simp
  have slot: "m_hashTable s ! ((?h + j) mod ?n) = probeSlot s filename j" for j
    by (simp add: probeSlot_def mod_add_left_eq)
  have "probe (m_fileEntries s) (m_hashTable s) (stringHash filename HASH_SEED0)
          (stringHash filename HASH_SEED1) (stringHash filename HASH_SEED2) ?h (m_hashTable s ! ?h) =
        Some (Inr (if deleted (m_fileEntries s ! nat (m_hashTable s ! ((?h + k) mod ?n))) then - 1
                   else m_hashTable s ! ((?h + k) mod ?n)))"
    using assms(2-5) n unfolding nameMatch_def
    by (intro probe_chain [OF refl]) (simp_all only: slot mod_less_divisor)
  then show ?thesis
    using assms(1) by (simp add: getFileIndex_def Let_def slot)
qed

text \<open>
  The witness: the chain of \<open>''a''\<close> meets a non-matching entry, then a tombstoned match,
  then a live match; the lookup answers \<open>- 1\<close>.
\<close>

theorem getFileIndex_first_match_witness:
  "m_hashTable packageShadowed \<noteq> []
   \<and> probeSlot packageShadowed ''a'' 0 = 0
   \<and> \<not> nameMatch (m_fileEntries packageShadowed ! 0) ''a''
   \<and> probeSlot packageShadowed ''a'' 1 = 1
   \<and> nameMatch (m_fileEntries packageShadowed ! 1) ''a''
   \<and> deleted (m_fileEntries packageShadowed ! 1)
   \<and> probeSlot packageShadowed ''a'' 2 = 2
   \<and> nameMatch (m_fileEntries packageShadowed ! 2) ''a''
   \<and> \<not> deleted (m_fileEntries packageShadowed ! 2)
   \<and> getFileIndex packageShadowed ''a'' = Some (Inr (- 1))"
  using getFileIndex_first_match [of packageShadowed 1 "''a''"]
  by (simp add: packageShadowed_def packageOf_def entryOf_def probeSlot_def nameMatch_def
      hashMatch_def deleted_def FILE_FLAG_DELETED_def stringHash_a stringHash_b)

text \<open>
  C4. An archive whose header records a header size of 48, above
  \<^verbatim>\<open>sizeof(PackageHeader)\<close> = 40, is accepted by \<^verbatim>\<open>readHeader\<close>. Into its empty table
  \<^verbatim>\<open>insertFile\<close> appends the first entry at \<^verbatim>\<open>sizeof(PackageHeader)\<close>, while the first-fit
  scan of the next call starts at the header size of the header: after adding 200 bytes
  as \<open>''a''\<close> and 10 bytes as \<open>''b''\<close>, the live entries occupy the byte ranges 40 to 240 and
  48 to 58, which overlap.
\<close>

theorem addFile_overlaps_behind_long_header:
  "(case openPackage exampleAbi (Some tallArchive) False of
      Some (Inr s0) \<Rightarrow>
        valid s0 \<and> sizeof_PackageHeader exampleAbi < unat (headerSize (m_header s0))
        \<and> (case run exampleAbi s0 [AddFile (Some 200) ''a'' 0, AddFile (Some 10) ''b'' 0] of
             Some (Inr s) \<Rightarrow>
               m_fileEntries s = [entryOf ''b'' 48 10 0, entryOf ''a'' 40 200 0]
               \<and> \<not> deleted (m_fileEntries s ! 0) \<and> \<not> deleted (m_fileEntries s ! 1)
               \<and> byteRange (m_fileEntries s ! 0) = {48..<58}
               \<and> byteRange (m_fileEntries s ! 1) = {40..<240}
               \<and> byteRange (m_fileEntries s ! 0) \<inter> byteRange (m_fileEntries s ! 1) \<noteq> {}
           | _ \<Rightarrow> False)
    | _ \<Rightarrow> False)"
proof -
  have r: "byteRange (entryOf ''b'' 48 10 0) = {48..<58}" "byteRange (entryOf ''a'' 40 200 0) = {40..<240}"
    by (simp_all add: byteRange_def fin_def entryOf_def)
  have "(48 :: nat) \<in> {48..<58} \<inter> {40..<240}" by simp
  then have "{48..<58} \<inter> {40..<240} \<noteq> ({} :: nat set)" by blast
  moreover have "valid tallOpened \<and> sizeof_PackageHeader exampleAbi < unat (headerSize (m_header tallOpened))"
    by (simp add: valid_def tallOpened_def exampleAbi_def headerOf_def)
  moreover have "\<not> deleted (entryOf ''b'' 48 10 0)" "\<not> deleted (entryOf ''a'' 40 200 0)"
    by (simp_all add: deleted_def entryOf_def)
  ultimately show ?thesis
    using run_tall
    by (simp add: openPackage_tallArchive r split: option.splits sum.splits)
qed

text \<open>
  C5 (as amended). \<^verbatim>\<open>insertFile\<close> places a new entry first-fit. \<open>lastEndOf start es\<close> is
  the spec's \<open>lastEnd\<close> after the entries \<open>es\<close> (the end of the last live one, or the
  header end), and \<open>gapFits\<close> at \<open>i\<close> says that entry \<open>i\<close> is live and its offset minus
  \<open>lastEnd\<close> is at least the new size (an unsigned 64-bit difference). The new entry and
  its name are spliced before the first entry that fits, at \<open>lastEnd\<close>, and the hash index
  is shifted; if none fits it is appended at the end of the last entry of the table,
  tombstoned or not; into an empty table of a package whose header size is
  \<^verbatim>\<open>sizeof(PackageHeader)\<close> it goes immediately after the header.
\<close>

theorem insertFile_first_fit:
  assumes "length (m_filenames s) = length (m_fileEntries s)"
  shows
   "(i < length (m_fileEntries s)
      \<and> gapFits (ucast (headerSize (m_header s))) (m_fileEntries s) (fileSize entry) i
      \<and> (\<forall>j<i. \<not> gapFits (ucast (headerSize (m_header s))) (m_fileEntries s) (fileSize entry) j)
     \<longrightarrow> insertFile A s entry filename =
           Inr (entry\<lparr>byteOffset := lastEndOf (ucast (headerSize (m_header s))) (take i (m_fileEntries s))\<rparr>,
                s\<lparr>m_fileEntries := insertAt i
                      (entry\<lparr>byteOffset := lastEndOf (ucast (headerSize (m_header s))) (take i (m_fileEntries s))\<rparr>)
                      (m_fileEntries s),
                  m_filenames := insertAt i filename (m_filenames s),
                  m_hashTable := fixHashTable (m_hashTable s) i\<rparr>))
    \<and> (m_fileEntries s \<noteq> []
      \<and> (\<forall>j<length (m_fileEntries s).
            \<not> gapFits (ucast (headerSize (m_header s))) (m_fileEntries s) (fileSize entry) j)
     \<longrightarrow> insertFile A s entry filename =
           Inr (entry\<lparr>byteOffset := byteOffset (last (m_fileEntries s))
                                        + ucast (fileSize (last (m_fileEntries s)))\<rparr>,
                s\<lparr>m_fileEntries := m_fileEntries s @
                      [entry\<lparr>byteOffset := byteOffset (last (m_fileEntries s))
                                        + ucast (fileSize (last (m_fileEntries s)))\<rparr>],
                  m_filenames := m_filenames s @ [filename],
                  m_header := (m_header s)\<lparr>fileEntryOffset :=
                      byteOffset (last (m_fileEntries s)) + ucast (fileSize (last (m_fileEntries s)))
                        + ucast (fileSize entry)\<rparr>\<rparr>))
    \<and> (m_fileEntries s = [] \<and> unat (headerSize (m_header s)) = sizeof_PackageHeader A
     \<longrightarrow> insertFile A s entry filename =
           Inr (entry\<lparr>byteOffset := ucast (headerSize (m_header s))\<rparr>,
                s\<lparr>m_fileEntries := [entry\<lparr>byteOffset := ucast (headerSize (m_header s))\<rparr>],
                  m_filenames := [filename],
                  m_header := (m_header s)\<lparr>fileEntryOffset :=
                      ucast (headerSize (m_header s)) + ucast (fileSize entry)\<rparr>\<rparr>))"
proof (intro conjI impI)
  assume "i < length (m_fileEntries s)
      \<and> gapFits (ucast (headerSize (m_header s))) (m_fileEntries s) (fileSize entry) i
      \<and> (\<forall>j<i. \<not> gapFits (ucast (headerSize (m_header s))) (m_fileEntries s) (fileSize entry) j)"
  then have i: "i < length (m_fileEntries s)"
    and fit: "gapFits (ucast (headerSize (m_header s))) (m_fileEntries s) (fileSize entry) i"
    and before: "\<forall>j<i. \<not> gapFits (ucast (headerSize (m_header s))) (m_fileEntries s) (fileSize entry) j"
    by simp_all
  from insertFile_scan_first_fit [OF i fit before, of 0] i
  have "insertFile_scan (m_fileEntries s) (fileSize entry) 0 (ucast (headerSize (m_header s))) =
      Some (i, lastEndOf (ucast (headerSize (m_header s))) (take i (m_fileEntries s)))"
    and "i \<le> length (m_filenames s)"
    using assms by simp_all
  then show "insertFile A s entry filename =
           Inr (entry\<lparr>byteOffset := lastEndOf (ucast (headerSize (m_header s))) (take i (m_fileEntries s))\<rparr>,
                s\<lparr>m_fileEntries := insertAt i
                      (entry\<lparr>byteOffset := lastEndOf (ucast (headerSize (m_header s))) (take i (m_fileEntries s))\<rparr>)
                      (m_fileEntries s),
                  m_filenames := insertAt i filename (m_filenames s),
                  m_hashTable := fixHashTable (m_hashTable s) i\<rparr>)"
    using assms by (simp add: insertFile_def Let_def)
next
  assume "m_fileEntries s \<noteq> []
      \<and> (\<forall>j<length (m_fileEntries s).
            \<not> gapFits (ucast (headerSize (m_header s))) (m_fileEntries s) (fileSize entry) j)"
  then have "insertFile_scan (m_fileEntries s) (fileSize entry) 0 (ucast (headerSize (m_header s))) = None"
    and "m_fileEntries s \<noteq> []"
    by (auto intro: insertFile_scan_no_fit)
  then show "insertFile A s entry filename =
           Inr (entry\<lparr>byteOffset := byteOffset (last (m_fileEntries s))
                                        + ucast (fileSize (last (m_fileEntries s)))\<rparr>,
                s\<lparr>m_fileEntries := m_fileEntries s @
                      [entry\<lparr>byteOffset := byteOffset (last (m_fileEntries s))
                                        + ucast (fileSize (last (m_fileEntries s)))\<rparr>],
                  m_filenames := m_filenames s @ [filename],
                  m_header := (m_header s)\<lparr>fileEntryOffset :=
                      byteOffset (last (m_fileEntries s)) + ucast (fileSize (last (m_fileEntries s)))
                        + ucast (fileSize entry)\<rparr>\<rparr>)"
    using assms by (simp add: insertFile_def Let_def)
next
  assume a: "m_fileEntries s = [] \<and> unat (headerSize (m_header s)) = sizeof_PackageHeader A"
  then have "(of_nat (sizeof_PackageHeader A) :: u64) = ucast (headerSize (m_header s))"
    by (metis of_nat_unat)
  with a show "insertFile A s entry filename =
           Inr (entry\<lparr>byteOffset := ucast (headerSize (m_header s))\<rparr>,
                s\<lparr>m_fileEntries := [entry\<lparr>byteOffset := ucast (headerSize (m_header s))\<rparr>],
                  m_filenames := [filename],
                  m_header := (m_header s)\<lparr>fileEntryOffset :=
                      ucast (headerSize (m_header s)) + ucast (fileSize entry)\<rparr>\<rparr>)"
    using assms by (simp add: insertFile_def Let_def)
qed

theorem insertFile_first_fit_witness:
  "(2 < length (m_fileEntries packageGap)
    \<and> gapFits (ucast (headerSize (m_header packageGap))) (m_fileEntries packageGap) 10 2
    \<and> \<not> gapFits (ucast (headerSize (m_header packageGap))) (m_fileEntries packageGap) 10 0
    \<and> \<not> gapFits (ucast (headerSize (m_header packageGap))) (m_fileEntries packageGap) 10 1
    \<and> insertFile exampleAbi packageGap (entryOf ''c'' 0 10 0) ''c'' =
        Inr (entryOf ''c'' 50 10 0,
             packageGap\<lparr>m_fileEntries :=
                 [entryOf ''a'' 40 10 0, entryOf ''t'' 50 10 FILE_FLAG_DELETED,
                  entryOf ''c'' 50 10 0, entryOf ''b'' 70 10 0],
               m_filenames := [''a'', ''t'', ''c'', ''b''],
               m_hashTable := fixHashTable (replicate 256 (- 1)) 2\<rparr>))
   \<and> (m_fileEntries packageTail \<noteq> []
    \<and> length (m_fileEntries packageTail) = 2
    \<and> \<not> gapFits (ucast (headerSize (m_header packageTail))) (m_fileEntries packageTail) 5 0
    \<and> \<not> gapFits (ucast (headerSize (m_header packageTail))) (m_fileEntries packageTail) 5 1
    \<and> insertFile exampleAbi packageTail (entryOf ''c'' 0 5 0) ''c'' =
        Inr (entryOf ''c'' 60 5 0,
             packageTail\<lparr>m_fileEntries :=
                 [entryOf ''a'' 40 10 0, entryOf ''t'' 50 10 FILE_FLAG_DELETED, entryOf ''c'' 60 5 0],
               m_filenames := [''a'', ''t'', ''c''],
               m_header := (m_header packageTail)\<lparr>fileEntryOffset := 65\<rparr>\<rparr>))
   \<and> (m_fileEntries (examplePackage [] []) = []
    \<and> unat (headerSize (m_header (examplePackage [] []))) = sizeof_PackageHeader exampleAbi
    \<and> insertFile exampleAbi (examplePackage [] []) (entryOf ''c'' 0 5 0) ''c'' =
        Inr (entryOf ''c'' 40 5 0,
             (examplePackage [] [])\<lparr>m_fileEntries := [entryOf ''c'' 40 5 0],
               m_filenames := [''c''],
               m_header := (m_header (examplePackage [] []))\<lparr>fileEntryOffset := 45\<rparr>\<rparr>))"
proof -
  have n1: "length (m_filenames packageGap) = length (m_fileEntries packageGap)"
    by (simp add: packageGap_def examplePackage_def)
  have n2: "length (m_filenames packageTail) = length (m_fileEntries packageTail)"
    by (simp add: packageTail_def examplePackage_def)
  have n3: "length (m_filenames (examplePackage [] [])) = length (m_fileEntries (examplePackage [] []))"
    by (simp add: examplePackage_def)
  have two: "(\<forall>j<2. P j) \<longleftrightarrow> P 0 \<and> P (Suc 0)" for P :: "nat \<Rightarrow> bool"
    by (auto simp: numeral_2_eq_2 less_Suc_eq)
  have h1: "2 < length (m_fileEntries packageGap)
    \<and> gapFits (ucast (headerSize (m_header packageGap))) (m_fileEntries packageGap)
        (fileSize (entryOf ''c'' 0 10 0)) 2
    \<and> (\<forall>j<2. \<not> gapFits (ucast (headerSize (m_header packageGap))) (m_fileEntries packageGap)
        (fileSize (entryOf ''c'' 0 10 0)) j)"
    by (simp add: packageGap_def example_defs two)
  have h2: "m_fileEntries packageTail \<noteq> []
    \<and> (\<forall>j<length (m_fileEntries packageTail).
          \<not> gapFits (ucast (headerSize (m_header packageTail))) (m_fileEntries packageTail)
            (fileSize (entryOf ''c'' 0 5 0)) j)"
    by (simp add: packageTail_def example_defs All_less_Suc)
  have h3: "m_fileEntries (examplePackage [] []) = []
    \<and> unat (headerSize (m_header (examplePackage [] []))) = sizeof_PackageHeader exampleAbi"
    by (simp add: example_defs)
  note c1 = insertFile_first_fit [OF n1, THEN conjunct1, rule_format, OF h1, of exampleAbi "''c''"]
  note c2 = insertFile_first_fit [OF n2, THEN conjunct2, THEN conjunct1, rule_format, OF h2,
      of exampleAbi "''c''"]
  note c3 = insertFile_first_fit [OF n3, THEN conjunct2, THEN conjunct2, rule_format, OF h3,
      of "entryOf ''c'' 0 5 0" "''c''"]
  have g1: "insertFile exampleAbi packageGap (entryOf ''c'' 0 10 0) ''c'' =
        Inr (entryOf ''c'' 50 10 0,
             packageGap\<lparr>m_fileEntries :=
                 [entryOf ''a'' 40 10 0, entryOf ''t'' 50 10 FILE_FLAG_DELETED,
                  entryOf ''c'' 50 10 0, entryOf ''b'' 70 10 0],
               m_filenames := [''a'', ''t'', ''c'', ''b''],
               m_hashTable := fixHashTable (replicate 256 (- 1)) 2\<rparr>)"
    unfolding c1 by (simp add: packageGap_def example_defs)
  have g2: "insertFile exampleAbi packageTail (entryOf ''c'' 0 5 0) ''c'' =
        Inr (entryOf ''c'' 60 5 0,
             packageTail\<lparr>m_fileEntries :=
                 [entryOf ''a'' 40 10 0, entryOf ''t'' 50 10 FILE_FLAG_DELETED, entryOf ''c'' 60 5 0],
               m_filenames := [''a'', ''t'', ''c''],
               m_header := (m_header packageTail)\<lparr>fileEntryOffset := 65\<rparr>\<rparr>)"
    unfolding c2 by (simp add: packageTail_def example_defs)
  have g3: "insertFile exampleAbi (examplePackage [] []) (entryOf ''c'' 0 5 0) ''c'' =
        Inr (entryOf ''c'' 40 5 0,
             (examplePackage [] [])\<lparr>m_fileEntries := [entryOf ''c'' 40 5 0],
               m_filenames := [''c''],
               m_header := (m_header (examplePackage [] []))\<lparr>fileEntryOffset := 45\<rparr>\<rparr>)"
    unfolding c3 by (simp add: example_defs)
  have f: "fileSize (entryOf n x 10 fl) = 10" "fileSize (entryOf n x 5 fl) = 5" for n x fl
    by (simp_all add: entryOf_def)
  have l: "length (m_fileEntries packageTail) = 2"
    by (simp add: packageTail_def examplePackage_def)
  show ?thesis
    using h1 h2 h3 g1 g2 g3 l unfolding f l two by simp
qed

text \<open>
  C5 as stated fails where the table ends in a tombstoned entry: the new entry is
  appended at 60, the end of that entry, and not at 50, the end of the last live one.
\<close>

theorem insertFile_append_counterexample:
  "(case insertFile exampleAbi packageTail (entryOf ''c'' 0 5 0) ''c'' of
      Inl f \<Rightarrow> False
    | Inr (entry', s') \<Rightarrow>
        m_fileEntries s' = m_fileEntries packageTail @ [entry']
        \<and> byteOffset entry' = 60
        \<and> lastEndOf (ucast (headerSize (m_header packageTail))) (m_fileEntries packageTail) = 50)"
  by (simp add: insertFile_def packageTail_def example_defs Let_def)

text \<open>
  C6 (as amended). Whenever \<^verbatim>\<open>buildHashTable\<close> succeeds, the size of the table it
  leaves is a power of two, at least the minimum table size 256, at most twice the
  maximum table size, and at least twice the entry count: the load factor is at
  most one half.
\<close>

theorem buildHashTable_table_size:
  assumes "buildHashTable s = Some (Inr (True, s'))"
  shows "(\<exists>k. length (m_hashTable s') = 2 ^ k)
    \<and> MIN_HASH_TABLE_SIZE \<le> length (m_hashTable s')
    \<and> length (m_hashTable s') \<le> 2 * MAX_HASH_TABLE_SIZE
    \<and> 2 * unat (fileCount (m_header s)) \<le> length (m_hashTable s')"
proof -
  from buildHashTable_True_size [OF assms] obtain t j where
    t: "t = 2 ^ j" "7 \<le> j" "j \<le> 19" "unat (fileCount (m_header s)) \<le> t"
       "length (m_hashTable s') = 2 * t"
    by blast
  have "length (m_hashTable s') = 2 ^ Suc j" using t by simp
  then have "\<exists>k. length (m_hashTable s') = 2 ^ k" by blast
  moreover have "(2::nat) ^ 7 \<le> t" using t(1,2) by (simp only: power_increasing_iff) 
  then have "MIN_HASH_TABLE_SIZE \<le> length (m_hashTable s')"
    using t(5) by (simp add: MIN_HASH_TABLE_SIZE_def)
  moreover have "t \<le> 2 ^ 19" using t(1,3) by (simp only: power_increasing_iff) 
  then have "length (m_hashTable s') \<le> 2 * MAX_HASH_TABLE_SIZE"
    using t(5) by (simp add: MAX_pow)
  ultimately show ?thesis using t(4,5) by simp
qed

theorem buildHashTable_table_size_witness:
  "buildHashTable packageOne = Some (Inr (True, packageOne\<lparr>m_hashTable := (replicate 256 (- 1))[0 := 0]\<rparr>))
   \<and> (\<exists>k. length (m_hashTable (packageOne\<lparr>m_hashTable := (replicate 256 (- 1))[0 := 0]\<rparr>)) = 2 ^ k)
   \<and> MIN_HASH_TABLE_SIZE \<le> length (m_hashTable (packageOne\<lparr>m_hashTable := (replicate 256 (- 1))[0 := 0]\<rparr>))
   \<and> length (m_hashTable (packageOne\<lparr>m_hashTable := (replicate 256 (- 1))[0 := 0]\<rparr>)) \<le> 2 * MAX_HASH_TABLE_SIZE
   \<and> 2 * unat (fileCount (m_header packageOne)) \<le> length (m_hashTable (packageOne\<lparr>m_hashTable := (replicate 256 (- 1))[0 := 0]\<rparr>))"
  using buildHashTable_table_size [OF buildHashTable_packageOne] buildHashTable_packageOne
  by blast

text \<open>
  C6 as stated fails: with 128 entries the table has exactly 256 slots, twice the
  count and not more; with 0x40001 entries it has 0x100000 slots, more than the
  maximum table size 0x80000.
\<close>

theorem buildHashTable_table_size_counterexample:
  "(case buildHashTable (packageOf (replicate 128 zeroEntry)) of
      Some (Inr (built, s')) \<Rightarrow> built \<and> length (m_hashTable s') = 2 * 128
    | _ \<Rightarrow> False)
   \<and> (case buildHashTable (packageOf (replicate 0x40001 zeroEntry)) of
      Some (Inr (built, s')) \<Rightarrow> built \<and> length (m_hashTable s') = 0x100000
    | _ \<Rightarrow> False)"
  using buildHashTable_packageOf [of "replicate 128 zeroEntry" 128 "2 * 128"]
    buildHashTable_packageOf [of "replicate 0x40001 zeroEntry" "0x80000" "0x100000"]
  by (simp add: tableSize_loop_128 tableSize_loop_big)

text \<open>
  C7. After \<^verbatim>\<open>flush\<close> returns on a writable, dirty package, the entry table is the old
  one without its tombstoned entries, the name table the old one without their names,
  no entry carries the deleted flag, both tables have the length of the number of
  previously live entries, and the dirty flag is false. When the entry count of the
  header is at most the maximum table size, the hash index is the one \<^verbatim>\<open>buildHashTable\<close>
  builds from the compacted table, and the lookup of a name whose hashes an entry below
  the entry count carries returns an entry with these hashes. Above the maximum table
  size \<^verbatim>\<open>buildHashTable\<close> returns false, \<^verbatim>\<open>flush\<close> drops the result, and the package keeps
  the hash index it had before the compaction.
\<close>

theorem flush_compacts:
  assumes "flush s = Some (Inr s')" and "\<not> m_readonly s" and "m_dirty s"
  shows "m_fileEntries s' = filter (\<lambda>e. \<not> deleted e) (m_fileEntries s)
    \<and> m_filenames s' =
        map snd (filter (\<lambda>p. \<not> deleted (fst p)) (zip (m_fileEntries s) (m_filenames s)))
    \<and> (\<forall>e \<in> set (m_fileEntries s'). \<not> deleted e)
    \<and> length (m_fileEntries s') = length (filter (\<lambda>e. \<not> deleted e) (m_fileEntries s))
    \<and> length (m_filenames s') = length (m_fileEntries s')
    \<and> \<not> m_dirty s'
    \<and> (unat (fileCount (m_header s)) \<le> MAX_HASH_TABLE_SIZE \<longrightarrow>
         buildHashTable (compacted s) = Some (Inr (True, s'\<lparr>m_dirty := True\<rparr>))
         \<and> (\<forall>j filename. j < unat (fileCount (m_header s'))
                \<and> nameMatch (m_fileEntries s' ! j) filename
              \<longrightarrow> (\<exists>m < length (m_fileEntries s'). getFileIndex s' filename = Some (Inr (int m))
                    \<and> nameMatch (m_fileEntries s' ! m) filename)))
    \<and> (MAX_HASH_TABLE_SIZE < unat (fileCount (m_header s)) \<longrightarrow>
         buildHashTable (compacted s) = Some (Inr (False, compacted s))
         \<and> m_hashTable s' = m_hashTable s)"
proof -
  from flush_cases [OF assms(1)] assms(2,3) obtain built t where
    len: "length (m_filenames s) = length (m_fileEntries s)"
    and b: "buildHashTable (compacted s) = Some (Inr (built, t))"
    and s': "s' = t\<lparr>m_dirty := False\<rparr>"
    by blast
  let ?l = "flush_loop (m_fileEntries s) (m_filenames s)"
  have cs: "m_fileEntries (compacted s) = fst ?l" "m_filenames (compacted s) = snd ?l"
    "fileCount (m_header (compacted s)) = fileCount (m_header s)" "m_dirty (compacted s) = m_dirty s"
    by (simp_all add: compacted_def)
  have ct: "m_hashTable (compacted s) = m_hashTable s" by (simp add: compacted_def)
  note fr = buildHashTable_frame [OF b]
  have sel: "m_fileEntries s' = m_fileEntries t" "m_filenames s' = m_filenames t"
    "m_header s' = m_header t" "m_hashTable s' = m_hashTable t" "\<not> m_dirty s'"
    unfolding s' by simp_all
  from fr cs sel have es: "m_fileEntries s' = fst ?l" and ns: "m_filenames s' = snd ?l"
    and hd: "fileCount (m_header s') = fileCount (m_header s)"
    by simp_all
  from fr cs(4) assms(3) have d: "m_dirty t" by simp
  from flush_loop_filter [OF len]
  have e1: "m_fileEntries s' = filter (\<lambda>e. \<not> deleted e) (m_fileEntries s)"
    and e2: "length (m_filenames s') = length (m_fileEntries s')"
    unfolding es ns by blast+
  from flush_loop_zip [OF len]
  have n1: "m_filenames s' =
      map snd (filter (\<lambda>p. \<not> deleted (fst p)) (zip (m_fileEntries s) (m_filenames s)))"
    unfolding ns .
  have live: "\<forall>e \<in> set (m_fileEntries s'). \<not> deleted e" unfolding e1 by simp
  have t: "t = s'\<lparr>m_dirty := True\<rparr>" unfolding s' using d by simp
  have small: "buildHashTable (compacted s) = Some (Inr (True, s'\<lparr>m_dirty := True\<rparr>))
      \<and> (\<forall>j filename. j < unat (fileCount (m_header s'))
             \<and> nameMatch (m_fileEntries s' ! j) filename
           \<longrightarrow> (\<exists>m < length (m_fileEntries s'). getFileIndex s' filename = Some (Inr (int m))
                 \<and> nameMatch (m_fileEntries s' ! m) filename))"
    if le: "unat (fileCount (m_header s)) \<le> MAX_HASH_TABLE_SIZE"
  proof -
    from le cs(3) have "unat (fileCount (m_header (compacted s))) \<le> MAX_HASH_TABLE_SIZE"
      by simp
    from buildHashTable_small [OF b this] have built: "built" .
    from b have b': "buildHashTable (compacted s) = Some (Inr (True, s'\<lparr>m_dirty := True\<rparr>))"
      using built unfolding t [symmetric] by simp
    have c: "unat (fileCount (m_header s')) \<le> length (m_fileEntries s')"
      and ix: "indexed (m_fileEntries s') (unat (fileCount (m_header s'))) (m_hashTable s')"
      using buildHashTable_indexed [OF b'] unfolding cs hd es by simp_all
    from buildHashTable_True_size [OF b'] have "length (m_hashTable s') \<noteq> 0" by auto
    then have ne: "m_hashTable s' \<noteq> []" by simp
    have look: "\<exists>m < length (m_fileEntries s'). getFileIndex s' filename = Some (Inr (int m))
        \<and> nameMatch (m_fileEntries s' ! m) filename"
      if "j < unat (fileCount (m_header s')) \<and> nameMatch (m_fileEntries s' ! j) filename"
      for j filename
    proof -
      from getFileIndex_indexed [OF ix c conjunct1 [OF that] ne conjunct2 [OF that]] obtain m where
        m: "m < unat (fileCount (m_header s'))" "nameMatch (m_fileEntries s' ! m) filename"
        "getFileIndex s' filename = Some (Inr (if deleted (m_fileEntries s' ! m) then - 1 else int m))"
        by blast
      from m(1) c have r: "m < length (m_fileEntries s')" by simp
      with live have "\<not> deleted (m_fileEntries s' ! m)" by simp
      with m(3) have "getFileIndex s' filename = Some (Inr (int m))" by simp
      with r m(2) show ?thesis by blast
    qed
    from b' look show ?thesis by blast
  qed
  have big: "buildHashTable (compacted s) = Some (Inr (False, compacted s))
      \<and> m_hashTable s' = m_hashTable s"
    if gt: "MAX_HASH_TABLE_SIZE < unat (fileCount (m_header s))"
  proof -
    from gt cs(3) have "MAX_HASH_TABLE_SIZE < unat (fileCount (m_header (compacted s)))" by simp
    from buildHashTable_fails [OF this]
    have f: "buildHashTable (compacted s) = Some (Inr (False, compacted s))" .
    with b have "t = compacted s" by simp
    with sel(4) ct f show ?thesis by simp
  qed
  show ?thesis
  proof (intro conjI impI)
    show "m_fileEntries s' = filter (\<lambda>e. \<not> deleted e) (m_fileEntries s)" by (rule e1)
    show "m_filenames s' =
        map snd (filter (\<lambda>p. \<not> deleted (fst p)) (zip (m_fileEntries s) (m_filenames s)))"
      by (rule n1)
    show "\<forall>e \<in> set (m_fileEntries s'). \<not> deleted e" by (rule live)
    show "length (m_fileEntries s') = length (filter (\<lambda>e. \<not> deleted e) (m_fileEntries s))"
      unfolding e1 ..
    show "length (m_filenames s') = length (m_fileEntries s')" by (rule e2)
    show "\<not> m_dirty s'" by (rule sel(5))
  next
    assume le: "unat (fileCount (m_header s)) \<le> MAX_HASH_TABLE_SIZE"
    from small [OF le]
    show "buildHashTable (compacted s) = Some (Inr (True, s'\<lparr>m_dirty := True\<rparr>))"
      and "\<forall>j filename. j < unat (fileCount (m_header s'))
             \<and> nameMatch (m_fileEntries s' ! j) filename
           \<longrightarrow> (\<exists>m < length (m_fileEntries s'). getFileIndex s' filename = Some (Inr (int m))
                 \<and> nameMatch (m_fileEntries s' ! m) filename)"
      by blast+
  next
    assume gt: "MAX_HASH_TABLE_SIZE < unat (fileCount (m_header s))"
    from big [OF gt]
    show "buildHashTable (compacted s) = Some (Inr (False, compacted s))"
      and "m_hashTable s' = m_hashTable s"
      by blast+
  qed
qed

text \<open>
  The witness: the three-entry package after the removal of \<open>''c''\<close> and the addition of
  \<open>''n''\<close>, a table of four entries with one tombstone; and the package of 0x80001 empty
  files.
\<close>

theorem flush_compacts_witness:
  "flush gapSpliced = Some (Inr gapFlushed) \<and> \<not> m_readonly gapSpliced \<and> m_dirty gapSpliced
   \<and> unat (fileCount (m_header gapSpliced)) \<le> MAX_HASH_TABLE_SIZE
   \<and> map deleted (m_fileEntries gapSpliced) = [False, True, False, False]
   \<and> m_fileEntries gapFlushed = [entryOf ''a'' 40 10 0, entryOf ''n'' 50 20 0, entryOf ''d'' 90 10 0]
   \<and> m_filenames gapFlushed = [''a'', ''n'', ''d'']
   \<and> \<not> m_dirty gapFlushed
   \<and> buildHashTable (compacted gapSpliced) = Some (Inr (True, gapFlushed\<lparr>m_dirty := True\<rparr>))
   \<and> getFileIndex gapFlushed ''n'' = Some (Inr 1)
   \<and> flush bigDirty = Some (Inr ((compacted bigDirty)\<lparr>m_dirty := False\<rparr>))
   \<and> \<not> m_readonly bigDirty \<and> m_dirty bigDirty
   \<and> MAX_HASH_TABLE_SIZE < unat (fileCount (m_header bigDirty))
   \<and> length (m_fileEntries ((compacted bigDirty)\<lparr>m_dirty := False\<rparr>)) = 0x80001
   \<and> \<not> m_dirty ((compacted bigDirty)\<lparr>m_dirty := False\<rparr>)
   \<and> buildHashTable (compacted bigDirty) = Some (Inr (False, compacted bigDirty))
   \<and> m_hashTable ((compacted bigDirty)\<lparr>m_dirty := False\<rparr>) = m_hashTable bigDirty"
proof -
  have h: "\<not> m_readonly gapSpliced" "m_dirty gapSpliced"
    by (simp_all add: gapSpliced_def)
  have c: "unat (fileCount (m_header gapSpliced)) \<le> MAX_HASH_TABLE_SIZE"
    by (simp add: gapSpliced_def headerOf_def MAX_HASH_TABLE_SIZE_def)
  have d: "map deleted (m_fileEntries gapSpliced) = [False, True, False, False]"
    by (simp add: gapSpliced_def entryOf_def deleted_def FILE_FLAG_DELETED_def)
  have l: "getFileIndex gapFlushed ''n'' = Some (Inr 1)"
    by (simp add: gapFlushed_def op_eval)
  have g: "\<not> m_readonly bigDirty" "m_dirty bigDirty"
    by (simp_all add: bigDirty_def)
  have k: "MAX_HASH_TABLE_SIZE < unat (fileCount (m_header bigDirty))"
    by (simp add: bigDirty_def headerOf_def MAX_HASH_TABLE_SIZE_def)
  have n: "length (m_fileEntries ((compacted bigDirty)\<lparr>m_dirty := False\<rparr>)) = 0x80001"
    by (simp add: compacted_bigDirty) (simp add: bigDirty_def)
  note small = flush_compacts [OF flush_gapSpliced h]
  note big = flush_compacts [OF flush_bigDirty g]
  from small have "\<not> m_dirty gapFlushed" by blast
  moreover from small c
  have "buildHashTable (compacted gapSpliced) = Some (Inr (True, gapFlushed\<lparr>m_dirty := True\<rparr>))"
    by blast
  moreover from big have "\<not> m_dirty ((compacted bigDirty)\<lparr>m_dirty := False\<rparr>)" by blast
  moreover from big k
  have "buildHashTable (compacted bigDirty) = Some (Inr (False, compacted bigDirty))
    \<and> m_hashTable ((compacted bigDirty)\<lparr>m_dirty := False\<rparr>) = m_hashTable bigDirty"
    by blast
  ultimately show ?thesis
    using h c d l g k n flush_gapSpliced flush_bigDirty by (simp add: gapFlushed_def)
qed

text \<open>
  The failing run: 0x80001 empty files are added to the empty package. \<^verbatim>\<open>flush\<close> returns
  with the dirty flag cleared and the hash index of the empty package, 256 free slots,
  and the lookup of the name of entry 0 answers \<open>- 1\<close>.
\<close>

theorem flush_stale_index_counterexample:
  "(case openPackage exampleAbi (Some emptyArchive) False of
      Some (Inr s0) \<Rightarrow>
        (case run exampleAbi s0 (replicate 0x80001 (AddFile (Some 0) [] 0)) of
           Some (Inr s) \<Rightarrow>
             \<not> m_readonly s \<and> m_dirty s
             \<and> (case flush s of
                  Some (Inr s') \<Rightarrow>
                    \<not> m_dirty s'
                    \<and> m_fileEntries s' = replicate 0x80001 (entryOf [] 40 0 0)
                    \<and> m_hashTable s' = m_hashTable s0
                    \<and> m_hashTable s' = replicate 256 (- 1)
                    \<and> buildHashTable (compacted s) = Some (Inr (False, compacted s))
                    \<and> nameMatch (m_fileEntries s' ! 0) [] \<and> \<not> deleted (m_fileEntries s' ! 0)
                    \<and> getFileIndex s' [] = Some (Inr (- 1))
                | _ \<Rightarrow> False)
         | _ \<Rightarrow> False)
    | _ \<Rightarrow> False)"
  unfolding openPackage_emptyArchive
  apply (simp add: run_bigDirty)
  apply (simp add: flush_bigDirty buildHashTable_bigDirty)
  apply (simp add: compacted_bigDirty)
  apply (simp add: bigDirty_def emptyOpened_def nameMatch_def hashMatch_def entryOf_def deleted_def
      FILE_FLAG_DELETED_def getFileIndex_def probe.simps Let_def)
  done

text \<open>
  C8 (as amended). Take a package opened writable, and any sequence of \<^verbatim>\<open>addFile\<close>,
  \<^verbatim>\<open>removeFile\<close>, \<^verbatim>\<open>flush\<close> and \<^verbatim>\<open>defrag\<close> calls that return. Afterwards the name table
  and the entry table have the same length, and, when every name stored in the archive
  hashes to the three hashes of its entry, every name of the name table hashes to the
  hashes of the entry at its index.
\<close>

theorem names_parallel_entries:
  assumes "openPackage A (Some a) readonly = Some (Inr s0)" and "valid s0"
    and "\<not> m_readonly s0"
    and "run A s0 ops = Some (Inr s)"
  shows "length (m_filenames s) = length (m_fileEntries s)
    \<and> ((\<forall>i < unat (fileCount (storedHeader a)). nameMatch (storedEntry a i) (storedName a i))
        \<longrightarrow> list_all2 nameMatch (m_fileEntries s) (m_filenames s))"
proof -
  from openPackage_names [OF assms(1-3)] have
    e: "m_fileEntries s0 = map (storedEntry a) [0..<unat (fileCount (storedHeader a))]"
    and n: "m_filenames s0 = map (storedName a) [0..<unat (fileCount (storedHeader a))]"
    by simp_all
  then have len: "length (m_filenames s0) = length (m_fileEntries s0)" by simp
  have "aligned s0"
    if "\<forall>i < unat (fileCount (storedHeader a)). nameMatch (storedEntry a i) (storedName a i)"
    using that unfolding aligned_def e n
    by (simp add: list_all2_conv_all_nth)
  with run_names [OF assms(4) len] show ?thesis by (auto simp: aligned_def)
qed

text \<open>
  The witness: the three-entry archive opened writable; \<open>''c''\<close> is removed, \<open>''n''\<close> is added
  and the package is flushed.
\<close>

theorem names_parallel_entries_witness:
  "openPackage exampleAbi (Some gapArchive) False = Some (Inr gapOpened)
   \<and> valid gapOpened \<and> \<not> m_readonly gapOpened
   \<and> run exampleAbi gapOpened [RemoveFile ''c'', AddFile (Some 20) ''n'' 0, Flush] =
       Some (Inr gapFlushed)
   \<and> unat (fileCount (storedHeader gapArchive)) = 3
   \<and> nameMatch (storedEntry gapArchive 0) (storedName gapArchive 0)
   \<and> nameMatch (storedEntry gapArchive 1) (storedName gapArchive 1)
   \<and> nameMatch (storedEntry gapArchive 2) (storedName gapArchive 2)
   \<and> m_filenames gapFlushed = [''a'', ''n'', ''d'']
   \<and> length (m_filenames gapFlushed) = length (m_fileEntries gapFlushed)
   \<and> list_all2 nameMatch (m_fileEntries gapFlushed) (m_filenames gapFlushed)"
proof -
  have v: "valid gapOpened" "\<not> m_readonly gapOpened" by (simp_all add: valid_def gapOpened_def)
  have n: "unat (fileCount (storedHeader gapArchive)) = 3"
    by (simp add: gapArchive_def headerOf_def)
  have m: "nameMatch (storedEntry gapArchive 0) (storedName gapArchive 0)"
    "nameMatch (storedEntry gapArchive 1) (storedName gapArchive 1)"
    "nameMatch (storedEntry gapArchive 2) (storedName gapArchive 2)"
    by (simp_all add: gapArchive_def entryOf_def nameMatch_def hashMatch_def)
  have three: "i < 3 \<longleftrightarrow> i = 0 \<or> i = 1 \<or> i = 2" for i :: nat by auto
  from m have all: "\<forall>i < unat (fileCount (storedHeader gapArchive)).
      nameMatch (storedEntry gapArchive i) (storedName gapArchive i)"
    unfolding n three by blast
  have f: "m_filenames gapFlushed = [''a'', ''n'', ''d'']" by (simp add: gapFlushed_def)
  from names_parallel_entries [OF openPackage_gapArchive v run_gap_flush] all
  show ?thesis
    using openPackage_gapArchive v run_gap_flush n m f by blast
qed

text \<open>
  C8 as stated fails after a read-only open: \<^verbatim>\<open>readFilenames\<close> returns at once for a
  read-only package, so the three entries of the archive have no names.
\<close>

theorem names_after_readonly_open_counterexample:
  "(case openPackage exampleAbi (Some gapArchive) True of
      Some (Inr s) \<Rightarrow> valid s \<and> length (m_fileEntries s) = 3 \<and> m_filenames s = []
    | _ \<Rightarrow> False)"
  by (simp add: openPackage_gapArchive_readonly valid_def gapOpened_def)

text \<open>
  C9. A header whose entry count exceeds the maximum table size makes
  \<^verbatim>\<open>buildHashTable\<close> return false, always. The constructor drops that result: when the
  three loaders succeed, the package it leaves is reported valid and its hash index is
  empty.
\<close>

theorem openPackage_ignores_build_failure:
  assumes "readHeader A a (newPackage readonly True) = (True, s1)"
    and "readFileEntries a s1 = (True, s2)"
    and "MAX_HASH_TABLE_SIZE < unat (fileCount (m_header s2))"
  shows "\<exists>s3. readFilenames a s2 = (True, s3)
           \<and> buildHashTable s3 = Some (Inr (False, s3))
           \<and> openPackage A (Some a) readonly = Some (Inr s3)
           \<and> valid s3 \<and> m_hashTable s3 = []"
proof -
  obtain ok3 s3 where r3: "readFilenames a s2 = (ok3, s3)" by force
  from readHeader_frame [OF assms(1)] have f1: "m_hashTable s1 = [] \<and> m_isOpen s1"
    by (simp add: newPackage_def)
  with readFileEntries_frame [OF assms(2)] have f2: "m_hashTable s2 = [] \<and> m_isOpen s2" by simp
  with readFilenames_frame [OF r3] have f3: "ok3" "m_hashTable s3 = []" "m_isOpen s3"
    "m_header s3 = m_header s2" by simp_all
  from buildHashTable_fails [of s3] assms(3) f3(4)
  have b: "buildHashTable s3 = Some (Inr (False, s3))" by simp
  have "openPackage A (Some a) readonly = Some (Inr s3)"
    using assms(1,2) r3 f3(1) b by (simp add: openPackage_def)
  with r3 f3 b show ?thesis by (auto simp: valid_def)
qed

text \<open>
  The witness: an archive of 0x80001 empty entries, opened read-only.
\<close>

theorem openPackage_ignores_build_failure_witness:
  "readHeader exampleAbi bigArchive (newPackage True True) =
     (True, (newPackage True True)\<lparr>m_header := storedHeader bigArchive\<rparr>)
   \<and> readFileEntries bigArchive ((newPackage True True)\<lparr>m_header := storedHeader bigArchive\<rparr>) =
     (True, bigLoaded)
   \<and> MAX_HASH_TABLE_SIZE < unat (fileCount (m_header bigLoaded))
   \<and> buildHashTable bigLoaded = Some (Inr (False, bigLoaded))
   \<and> openPackage exampleAbi (Some bigArchive) True = Some (Inr bigLoaded)
   \<and> valid bigLoaded \<and> m_hashTable bigLoaded = []"
proof -
  have n: "MAX_HASH_TABLE_SIZE < unat (fileCount (m_header bigLoaded))"
    by (simp add: bigLoaded_def bigArchive_def headerOf_def MAX_HASH_TABLE_SIZE_def)
  have "readFilenames bigArchive bigLoaded = (True, bigLoaded)"
    by (simp add: readFilenames_def bigLoaded_def newPackage_def)
  with openPackage_ignores_build_failure [OF readHeader_bigArchive readFileEntries_bigArchive n]
  show ?thesis
    using readHeader_bigArchive readFileEntries_bigArchive n by auto
qed

text \<open>
  C10 (as amended). \<^verbatim>\<open>getFileIndex\<close> divides by the size of the hash index without a
  guard: the lookup is a modulo by zero exactly when the index is empty, and so are
  \<^verbatim>\<open>hasFile\<close> and \<^verbatim>\<open>openFile\<close> on a package that is not dirty, \<^verbatim>\<open>removeFile\<close> on a writable
  package and \<^verbatim>\<open>addFile\<close> on a writable package with an external file that opens; on a
  dirty, respectively read-only, package these return before the lookup. The index is
  empty in every package whose construction failed (\<^verbatim>\<open>valid()\<close> false); it is not empty
  once \<^verbatim>\<open>buildHashTable\<close> has returned true, as it does at every successful open with an
  entry count of at most the maximum table size.
\<close>

theorem getFileIndex_needs_hash_table:
  "(getFileIndex s filename = Some (Inl ModuloByZero) \<longleftrightarrow> m_hashTable s = [])
   \<and> (hasFile s filename = Some (Inl ModuloByZero) \<longleftrightarrow> m_hashTable s = [] \<and> \<not> m_dirty s)
   \<and> (openFile s filename = Some (Inl ModuloByZero) \<longleftrightarrow> m_hashTable s = [] \<and> \<not> m_dirty s)
   \<and> (removeFile A s filename = Some (Inl ModuloByZero)
        \<longleftrightarrow> m_hashTable s = [] \<and> \<not> m_readonly s)
   \<and> (addFile A s externalFile filename flg = Some (Inl ModuloByZero)
        \<longleftrightarrow> m_hashTable s = [] \<and> \<not> m_readonly s \<and> externalFile \<noteq> None)
   \<and> (openPackage A stream readonly = Some (Inr s1) \<and> \<not> valid s1 \<longrightarrow>
        m_hashTable s1 = [] \<and> \<not> m_dirty s1
        \<and> getFileIndex s1 filename = Some (Inl ModuloByZero)
        \<and> hasFile s1 filename = Some (Inl ModuloByZero)
        \<and> openFile s1 filename = Some (Inl ModuloByZero))
   \<and> (buildHashTable s2 = Some (Inr (True, s3)) \<longrightarrow> m_hashTable s3 \<noteq> [])
   \<and> (openPackage A stream readonly = Some (Inr s4) \<and> valid s4
        \<and> unat (fileCount (m_header s4)) \<le> MAX_HASH_TABLE_SIZE \<longrightarrow> m_hashTable s4 \<noteq> [])"
proof (intro conjI impI)
  show "getFileIndex s filename = Some (Inl ModuloByZero) \<longleftrightarrow> m_hashTable s = []"
    by (rule getFileIndex_modulo_iff)
  show "hasFile s filename = Some (Inl ModuloByZero) \<longleftrightarrow> m_hashTable s = [] \<and> \<not> m_dirty s"
    by (rule hasFile_modulo_iff)
  show "openFile s filename = Some (Inl ModuloByZero) \<longleftrightarrow> m_hashTable s = [] \<and> \<not> m_dirty s"
    by (rule openFile_modulo_iff)
  show "removeFile A s filename = Some (Inl ModuloByZero)
      \<longleftrightarrow> m_hashTable s = [] \<and> \<not> m_readonly s"
    by (rule removeFile_modulo_iff)
  show "addFile A s externalFile filename flg = Some (Inl ModuloByZero)
      \<longleftrightarrow> m_hashTable s = [] \<and> \<not> m_readonly s \<and> externalFile \<noteq> None"
    by (rule addFile_modulo_iff)
next
  assume "openPackage A stream readonly = Some (Inr s1) \<and> \<not> valid s1"
  then have e: "m_hashTable s1 = []" and d: "\<not> m_dirty s1"
    using openPackage_invalid by blast+
  show "m_hashTable s1 = []" by (rule e)
  show "\<not> m_dirty s1" by (rule d)
  show "getFileIndex s1 filename = Some (Inl ModuloByZero)"
    using e by (simp add: getFileIndex_modulo_iff)
  show "hasFile s1 filename = Some (Inl ModuloByZero)"
    using e d by (simp add: hasFile_modulo_iff)
  show "openFile s1 filename = Some (Inl ModuloByZero)"
    using e d by (simp add: openFile_modulo_iff)
next
  assume "buildHashTable s2 = Some (Inr (True, s3))"
  from buildHashTable_True_size [OF this] have "length (m_hashTable s3) \<noteq> 0" by auto
  then show "m_hashTable s3 \<noteq> []" by simp
next
  assume "openPackage A stream readonly = Some (Inr s4) \<and> valid s4
      \<and> unat (fileCount (m_header s4)) \<le> MAX_HASH_TABLE_SIZE"
  then show "m_hashTable s4 \<noteq> []" using openPackage_small by blast
qed

text \<open>
  The witness: an archive with a wrong signature, the one-entry package, and the
  three-entry archive.
\<close>

theorem getFileIndex_needs_hash_table_witness:
  "openPackage exampleAbi (Some badArchive) False =
     Some (Inr ((newPackage False False)\<lparr>m_header := storedHeader badArchive\<rparr>))
   \<and> \<not> valid ((newPackage False False)\<lparr>m_header := storedHeader badArchive\<rparr>)
   \<and> m_hashTable ((newPackage False False)\<lparr>m_header := storedHeader badArchive\<rparr>) = []
   \<and> \<not> m_dirty ((newPackage False False)\<lparr>m_header := storedHeader badArchive\<rparr>)
   \<and> \<not> m_readonly ((newPackage False False)\<lparr>m_header := storedHeader badArchive\<rparr>)
   \<and> getFileIndex ((newPackage False False)\<lparr>m_header := storedHeader badArchive\<rparr>) ''a''
       = Some (Inl ModuloByZero)
   \<and> hasFile ((newPackage False False)\<lparr>m_header := storedHeader badArchive\<rparr>) ''a''
       = Some (Inl ModuloByZero)
   \<and> openFile ((newPackage False False)\<lparr>m_header := storedHeader badArchive\<rparr>) ''a''
       = Some (Inl ModuloByZero)
   \<and> removeFile exampleAbi ((newPackage False False)\<lparr>m_header := storedHeader badArchive\<rparr>) ''a''
       = Some (Inl ModuloByZero)
   \<and> addFile exampleAbi ((newPackage False False)\<lparr>m_header := storedHeader badArchive\<rparr>)
         (Some 5) ''a'' 0
       = Some (Inl ModuloByZero)
   \<and> buildHashTable packageOne =
       Some (Inr (True, packageOne\<lparr>m_hashTable := (replicate 256 (- 1))[0 := 0]\<rparr>))
   \<and> m_hashTable (packageOne\<lparr>m_hashTable := (replicate 256 (- 1))[0 := 0]\<rparr>) \<noteq> []
   \<and> openPackage exampleAbi (Some gapArchive) False = Some (Inr gapOpened)
   \<and> valid gapOpened \<and> unat (fileCount (m_header gapOpened)) \<le> MAX_HASH_TABLE_SIZE
   \<and> m_hashTable gapOpened \<noteq> []"
proof -
  let ?bad = "(newPackage False False)\<lparr>m_header := storedHeader badArchive\<rparr>"
  have v: "valid gapOpened" "unat (fileCount (m_header gapOpened)) \<le> MAX_HASH_TABLE_SIZE"
    by (simp_all add: valid_def gapOpened_def headerOf_def MAX_HASH_TABLE_SIZE_def)
  have b: "\<not> valid ?bad" "\<not> m_readonly ?bad" by (simp_all add: valid_def newPackage_def)
  note t = getFileIndex_needs_hash_table
    [where s = ?bad and filename = "''a''" and A = exampleAbi and externalFile = "Some 5"
       and flg = 0 and stream = "Some badArchive" and readonly = False and ?s1.0 = ?bad
       and ?s2.0 = packageOne
       and ?s3.0 = "packageOne\<lparr>m_hashTable := (replicate 256 (- 1))[0 := 0]\<rparr>"]
  note u = getFileIndex_needs_hash_table
    [where A = exampleAbi and stream = "Some gapArchive" and readonly = False
       and ?s4.0 = gapOpened]
  from u openPackage_gapArchive v have g: "m_hashTable gapOpened \<noteq> []" by blast
  from t openPackage_badArchive b have e: "m_hashTable ?bad = []" "\<not> m_dirty ?bad"
    "getFileIndex ?bad ''a'' = Some (Inl ModuloByZero)"
    "hasFile ?bad ''a'' = Some (Inl ModuloByZero)"
    "openFile ?bad ''a'' = Some (Inl ModuloByZero)"
    by blast+
  from t e(1) b(2) have r: "removeFile exampleAbi ?bad ''a'' = Some (Inl ModuloByZero)"
    "addFile exampleAbi ?bad (Some 5) ''a'' 0 = Some (Inl ModuloByZero)"
    by blast+
  from t buildHashTable_packageOne
  have p: "m_hashTable (packageOne\<lparr>m_hashTable := (replicate 256 (- 1))[0 := 0]\<rparr>) \<noteq> []"
    by blast
  show ?thesis
    using openPackage_badArchive b e r buildHashTable_packageOne p openPackage_gapArchive v g
    by blast
qed

text \<open>
  C10 as stated fails: the archive of 0x80001 entries opens successfully and
  \<^verbatim>\<open>buildHashTable\<close> runs, yet the hash index is empty and the lookup divides by zero; and
  on a read-only package whose open failed \<^verbatim>\<open>addFile\<close> and \<^verbatim>\<open>removeFile\<close> return false
  without a lookup.
\<close>

theorem lookup_after_valid_open_counterexample:
  "openPackage exampleAbi (Some bigArchive) True = Some (Inr bigLoaded)
   \<and> valid bigLoaded
   \<and> buildHashTable bigLoaded = Some (Inr (False, bigLoaded))
   \<and> m_hashTable bigLoaded = []
   \<and> getFileIndex bigLoaded ''a'' = Some (Inl ModuloByZero)
   \<and> hasFile bigLoaded ''a'' = Some (Inl ModuloByZero)
   \<and> openFile bigLoaded ''a'' = Some (Inl ModuloByZero)
   \<and> (case openPackage exampleAbi (Some badArchive) True of
        Some (Inr s) \<Rightarrow>
          \<not> valid s \<and> m_hashTable s = []
          \<and> addFile exampleAbi s (Some 5) ''a'' 0 = Some (Inr (False, s))
          \<and> removeFile exampleAbi s ''a'' = Some (Inr (False, s))
      | _ \<Rightarrow> False)"
proof -
  have n: "MAX_HASH_TABLE_SIZE < unat (fileCount (m_header bigLoaded))"
    by (simp add: bigLoaded_def bigArchive_def headerOf_def MAX_HASH_TABLE_SIZE_def)
  have e: "m_hashTable bigLoaded = []" "\<not> m_dirty bigLoaded" "valid bigLoaded"
    by (simp_all add: bigLoaded_def newPackage_def valid_def)
  have l: "getFileIndex bigLoaded ''a'' = Some (Inl ModuloByZero)"
    "hasFile bigLoaded ''a'' = Some (Inl ModuloByZero)"
    "openFile bigLoaded ''a'' = Some (Inl ModuloByZero)"
    using e by (simp_all add: getFileIndex_modulo_iff hasFile_modulo_iff openFile_modulo_iff)
  have b: "(case openPackage exampleAbi (Some badArchive) True of
        Some (Inr s) \<Rightarrow>
          \<not> valid s \<and> m_hashTable s = []
          \<and> addFile exampleAbi s (Some 5) ''a'' 0 = Some (Inr (False, s))
          \<and> removeFile exampleAbi s ''a'' = Some (Inr (False, s))
      | _ \<Rightarrow> False)"
    unfolding openPackage_badArchive_readonly
    by (simp add: valid_def newPackage_def addFile_def removeFile_def)
  from openPackage_bigArchive e l buildHashTable_fails [OF n] b show ?thesis by blast
qed

end
